theory Spec2Isabelle
  imports Main
begin

section \<open>Data model\<close>

text \<open>
  The module system of the repository. \<^verbatim>\<open>src/module/module.go\<close> holds, one after the
  other, the \<^verbatim>\<open>Module\<close> interface of package \<^verbatim>\<open>module\<close> (\<^verbatim>\<open>Deps\<close>, \<^verbatim>\<open>Init\<close>,
  \<^verbatim>\<open>RegisterRoutes\<close>, \<^verbatim>\<open>Shutdown\<close>), the table \<^verbatim>\<open>Modules\<close> of package
  \<^verbatim>\<open>registry\<close> from module name to factory, and package \<^verbatim>\<open>main\<close> with
  \<^verbatim>\<open>resolveDependencies\<close>, \<^verbatim>\<open>ModuleManager.Update\<close>, \<^verbatim>\<open>rebuildRouter\<close> and
  \<^verbatim>\<open>handler\<close>. The three modules are \<^verbatim>\<open>order\<close> (\<^verbatim>\<open>src/modules/order/order.go\<close>),
  \<^verbatim>\<open>user\<close> (\<^verbatim>\<open>src/unnamed/part_001\<close>) and \<^verbatim>\<open>auth\<close> (after \<^verbatim>\<open>ExpandConfig\<close> in
  \<^verbatim>\<open>src/utils/env.go\<close>).

  \<^verbatim>\<open>ModuleConfig\<close> is \<^verbatim>\<open>map[string]any\<close>; the dynamically typed values are
  kept as strings. A \<^verbatim>\<open>*gin.Engine\<close> is represented by the list of routes that were
  registered on it, in registration order (gin itself is a library outside the
  repository); a route is a path with the body its handler answers.
\<close>

type_synonym ModuleConfig = "string \<rightharpoonup> string"

type_synonym route = "string \<times> string"

type_synonym Engine = "route list"

text \<open>
  What the instances made by one factory do. \<^verbatim>\<open>Deps\<close> of a fresh instance is a fixed
  list; \<^verbatim>\<open>Init\<close> receives the configuration and returns an error (\<open>Some msg\<close>) or
  \<^verbatim>\<open>nil\<close> (\<open>None\<close>); \<^verbatim>\<open>RegisterRoutes\<close> adds routes whose handlers may use what
  \<^verbatim>\<open>Init\<close> stored (the greeting of \<^verbatim>\<open>user\<close>, the DSN of \<^verbatim>\<open>order\<close>);
  \<^verbatim>\<open>Shutdown\<close> returns an error or \<^verbatim>\<open>nil\<close>.
\<close>

record module_impl =
  Deps :: "string list"
  Init :: "ModuleConfig \<Rightarrow> string option"
  RegisterRoutes :: "ModuleConfig \<Rightarrow> route list"
  Shutdown :: "string option"

text \<open>
  A live instance (a Go pointer): \<open>ident\<close> is the pointer identity, \<open>impl\<close> the
  dynamic type behind the interface value, \<open>init_cfg\<close> the configuration its
  \<^verbatim>\<open>Init\<close> was called with.
\<close>

record Module =
  ident :: nat
  impl :: module_impl
  init_cfg :: ModuleConfig

text \<open>\<^verbatim>\<open>registry.Modules\<close>: a finite table from module name to factory.\<close>

type_synonym registry = "(string \<times> module_impl) list"

text \<open>\<^verbatim>\<open>type Config struct { Modules []string; Configs map[string]map[string]any }\<close>\<close>

record Config =
  Modules :: "string list"
  Configs :: "string \<rightharpoonup> ModuleConfig"

text \<open>The only error \<^verbatim>\<open>resolveDependencies\<close> constructs:
  \<^verbatim>\<open>fmt.Errorf("unknown module: %s", name)\<close>.\<close>

datatype error = UnknownModule string

fun Error :: "error \<Rightarrow> string" where
  "Error (UnknownModule name) = ''unknown module: '' @ name"

section \<open>Dependency resolution\<close>

text \<open>
  \<^verbatim>\<open>resolveDependencies\<close> keeps two local variables that the closure \<^verbatim>\<open>visit\<close>
  updates: the map \<^verbatim>\<open>visited\<close> and the slice \<^verbatim>\<open>result\<close>.
\<close>

record dfs =
  visited :: "string \<rightharpoonup> bool"
  result :: "string list"

text \<open>
  \<^verbatim>\<open>visit\<close> calls itself for every dependency before it marks the name as visited,
  and nothing bounds the depth of that recursion. The first argument is the number of
  nested calls still allowed; \<open>None\<close> means that the call did not return within it.
  \<open>Some (Inl e)\<close> is a returned error, \<open>Some (Inr s)\<close> a normal return with the
  updated locals. \<open>visit_each\<close> is the loop
  \<^verbatim>\<open>for _, dep := range ... { if err := visit(dep); err != nil { return err } }\<close>,
  which \<^verbatim>\<open>visit\<close> runs over \<^verbatim>\<open>tmp.Deps()\<close> and \<^verbatim>\<open>resolveDependencies\<close> over
  \<^verbatim>\<open>modNames\<close>. The instance \<^verbatim>\<open>tmp\<close> is made only to read its \<^verbatim>\<open>Deps()\<close> and is
  dropped.
\<close>

fun visit :: "nat \<Rightarrow> registry \<Rightarrow> string \<Rightarrow> dfs \<Rightarrow> (error + dfs) option"
  and visit_each :: "nat \<Rightarrow> registry \<Rightarrow> string list \<Rightarrow> dfs \<Rightarrow> (error + dfs) option"
where
  "visit 0 reg name s = None"
| "visit (Suc n) reg name s =
     (if visited s name = Some True then Some (Inr s)
      else case map_of reg name of
        None \<Rightarrow> Some (Inl (UnknownModule name))
      | Some factory \<Rightarrow>
          (case visit_each n reg (Deps factory) s of
            None \<Rightarrow> None
          | Some (Inl err) \<Rightarrow> Some (Inl err)
          | Some (Inr s') \<Rightarrow>
              Some (Inr (s'\<lparr>visited := (visited s')(name \<mapsto> True),
                             result := result s' @ [name]\<rparr>))))"
| "visit_each n reg [] s = Some (Inr s)"
| "visit_each n reg (dep # deps) s =
     (case visit n reg dep s of
        None \<Rightarrow> None
      | Some (Inl err) \<Rightarrow> Some (Inl err)
      | Some (Inr s') \<Rightarrow> visit_each n reg deps s')"

definition resolveDependencies :: "nat \<Rightarrow> registry \<Rightarrow> string list \<Rightarrow> (error + string list) option" where
  "resolveDependencies n reg modNames =
     (case visit_each n reg modNames \<lparr>visited = Map.empty, result = []\<rparr> of
        None \<Rightarrow> None
      | Some (Inl err) \<Rightarrow> Some (Inl err)
      | Some (Inr s) \<Rightarrow> Some (Inr (result s)))"

text \<open>
  The dependency graph that the registry declares: an edge from a registered name to
  each name in the \<^verbatim>\<open>Deps()\<close> of its factory's instances; the names reachable from
  a set of names; and the names from which a cycle can be reached.
\<close>

definition dep_edges :: "registry \<Rightarrow> (string \<times> string) set" where
  "dep_edges reg = {(a, b). \<exists>f. map_of reg a = Some f \<and> b \<in> set (Deps f)}"

definition dep_closure :: "registry \<Rightarrow> string set \<Rightarrow> string set" where
  "dep_closure reg A = (dep_edges reg)\<^sup>* `` A"

definition reaches_cycle :: "registry \<Rightarrow> string \<Rightarrow> bool" where
  "reaches_cycle reg a \<longleftrightarrow> (\<exists>y. (a, y) \<in> (dep_edges reg)\<^sup>* \<and> (y, y) \<in> (dep_edges reg)\<^sup>+)"

text \<open>Every element of the list is registered and all its declared dependencies stand
  strictly before it.\<close>

definition deps_before :: "registry \<Rightarrow> string list \<Rightarrow> bool" where
  "deps_before reg xs \<longleftrightarrow>
     (\<forall>i<length xs. \<exists>f. map_of reg (xs ! i) = Some f \<and> set (Deps f) \<subseteq> set (take i xs))"

text \<open>The invariant of the two locals of \<^verbatim>\<open>resolveDependencies\<close>.\<close>

definition dfs_inv :: "registry \<Rightarrow> dfs \<Rightarrow> bool" where
  "dfs_inv reg s \<longleftrightarrow>
     (\<forall>x. visited s x = Some True \<longleftrightarrow> x \<in> set (result s)) \<and>
     distinct (result s) \<and> deps_before reg (result s)"

text \<open>The converse dependency edges out of cycle-free names; well-founded, and the
  order along which \<^verbatim>\<open>visit\<close> is shown to return.\<close>

definition dep_of :: "registry \<Rightarrow> (string \<times> string) set" where
  "dep_of reg = {(d, a). (a, d) \<in> dep_edges reg \<and> \<not> reaches_cycle reg a}"

section \<open>The module manager\<close>

text \<open>
  What a reconciliation does to the outside, in order: the method calls on module
  instances (with the instance's identity) and the lines that \<^verbatim>\<open>Update\<close> itself
  prints with \<^verbatim>\<open>fmt.Println\<close> (the list of its operands). What a module's method
  prints or does inside belongs to the call.
\<close>

datatype event =
    InitCall string nat
  | RegisterRoutesCall string nat
  | ShutdownCall string nat
  | Println "string list"

text \<open>\<^verbatim>\<open>type ModuleManager struct { active map[string]module.Module; lock sync.Mutex }\<close>.
  The model is sequential, so the mutex has no field.\<close>

record ModuleManager =
  active :: "string \<rightharpoonup> Module"

text \<open>
  The package-level variables \<^verbatim>\<open>manager\<close> and \<^verbatim>\<open>router\<close> (\<^verbatim>\<open>nil\<close> until the
  first \<^verbatim>\<open>rebuildRouter\<close>), the next unused pointer identity (every instance that
  \<^verbatim>\<open>Update\<close> makes with a factory gets a new one), and the events so far.
\<close>

record world =
  manager :: ModuleManager
  router :: "Engine option"
  next_ident :: nat
  trace :: "event list"

text \<open>\<^verbatim>\<open>gin.Default()\<close>: a new engine without routes.\<close>

definition gin_Default :: Engine where
  "gin_Default = []"

text \<open>The locals of \<^verbatim>\<open>Update\<close> that its first loop changes: \<^verbatim>\<open>newActive\<close>, the engine
  \<^verbatim>\<open>r\<close>, and with them the allocator and the events.\<close>

record upd =
  newActive :: "string \<rightharpoonup> Module"
  engine :: Engine
  alloc :: nat
  out :: "event list"

text \<open>\<^verbatim>\<open>module.ModuleConfig(cfg.Configs[name])\<close>: a missing key gives the nil map, which
  reads as the empty map.\<close>

definition config_of :: "Config \<Rightarrow> string \<Rightarrow> ModuleConfig" where
  "config_of cfg name = (case Configs cfg name of None \<Rightarrow> Map.empty | Some c \<Rightarrow> c)"

text \<open>
  The body of the first loop of \<^verbatim>\<open>Update\<close> for one name: keep the instance that is
  already active and register its routes; otherwise make an instance with the factory,
  call \<^verbatim>\<open>Init\<close>, and on an error print it and \<^verbatim>\<open>continue\<close>, else register the
  routes, store the instance and print. A name with no factory falls through both
  branches.
\<close>

definition start_module :: "registry \<Rightarrow> Config \<Rightarrow> (string \<rightharpoonup> Module) \<Rightarrow> string \<Rightarrow> upd \<Rightarrow> upd" where
  "start_module reg cfg old name u =
     (case old name of
        Some oldm \<Rightarrow>
          u\<lparr>newActive := (newActive u)(name \<mapsto> oldm),
            engine := engine u @ RegisterRoutes (impl oldm) (init_cfg oldm),
            out := out u @ [RegisterRoutesCall name (ident oldm)]\<rparr>
      | None \<Rightarrow>
          (case map_of reg name of
             Some newFn \<Rightarrow>
               (let modCfg = config_of cfg name;
                    inst = \<lparr>ident = alloc u, impl = newFn, init_cfg = modCfg\<rparr>
                in case Init newFn modCfg of
                     Some err \<Rightarrow>
                       u\<lparr>alloc := Suc (alloc u),
                         out := out u @ [InitCall name (ident inst),
                                         Println [''Failed to init module:'', name, err]]\<rparr>
                   | None \<Rightarrow>
                       u\<lparr>newActive := (newActive u)(name \<mapsto> inst),
                         engine := engine u @ RegisterRoutes newFn modCfg,
                         alloc := Suc (alloc u),
                         out := out u @ [InitCall name (ident inst),
                                         RegisterRoutesCall name (ident inst),
                                         Println [''Started module:'', name]]\<rparr>)
           | None \<Rightarrow> u))"

fun start_modules :: "registry \<Rightarrow> Config \<Rightarrow> (string \<rightharpoonup> Module) \<Rightarrow> string list \<Rightarrow> upd \<Rightarrow> upd" where
  "start_modules reg cfg old [] u = u"
| "start_modules reg cfg old (name # rest) u =
     start_modules reg cfg old rest (start_module reg cfg old name u)"

text \<open>
  The second loop of \<^verbatim>\<open>Update\<close>, over the names it is given (the caller passes
  \<^verbatim>\<open>ordered\<close> reversed, for \<^verbatim>\<open>i := len(ordered) - 1; i >= 0; i--\<close>): a name in
  \<^verbatim>\<open>newActive\<close> is skipped; otherwise, if \<^verbatim>\<open>m.active\<close> has it, \<^verbatim>\<open>Shutdown\<close> is
  called and its outcome printed.
\<close>

fun stop_modules :: "(string \<rightharpoonup> Module) \<Rightarrow> (string \<rightharpoonup> Module) \<Rightarrow> string list \<Rightarrow> event list \<Rightarrow> event list" where
  "stop_modules old new [] tr = tr"
| "stop_modules old new (name # rest) tr =
     stop_modules old new rest
       (if new name \<noteq> None then tr
        else case old name of
          Some oldm \<Rightarrow>
            tr @ [ShutdownCall name (ident oldm),
                  Println (case Shutdown (impl oldm) of
                     Some err \<Rightarrow> [''Error shutting down module:'', name, err]
                   | None \<Rightarrow> [''Stopped module:'', name])]
        | None \<Rightarrow> tr)"

text \<open>
  \<^verbatim>\<open>func (m *ModuleManager) Update(cfg Config) *gin.Engine\<close>. The result is the
  returned engine with the world after the call; \<open>None\<close> when
  \<^verbatim>\<open>resolveDependencies\<close> does not return within \<open>n\<close> nested calls.
\<close>

definition Update :: "nat \<Rightarrow> registry \<Rightarrow> Config \<Rightarrow> world \<Rightarrow> (Engine \<times> world) option" where
  "Update n reg cfg w =
     (case resolveDependencies n reg (Modules cfg) of
        None \<Rightarrow> None
      | Some (Inl err) \<Rightarrow>
          Some (gin_Default,
                w\<lparr>trace := trace w @ [Println [''Dependency resolution error:'', Error err]]\<rparr>)
      | Some (Inr ordered) \<Rightarrow>
          (let old = active (manager w);
               u = start_modules reg cfg old ordered
                     \<lparr>newActive = Map.empty, engine = gin_Default,
                      alloc = next_ident w, out = trace w\<rparr>;
               tr = stop_modules old (newActive u) (rev ordered) (out u)
           in Some (engine u,
                    w\<lparr>manager := (manager w)\<lparr>active := newActive u\<rparr>,
                      next_ident := alloc u, trace := tr\<rparr>)))"

text \<open>\<^verbatim>\<open>func rebuildRouter(cfg Config) { ...; router = manager.Update(cfg) }\<close> and
  \<^verbatim>\<open>func handler() *gin.Engine { ...; return router }\<close>.\<close>

definition rebuildRouter :: "nat \<Rightarrow> registry \<Rightarrow> Config \<Rightarrow> world \<Rightarrow> world option" where
  "rebuildRouter n reg cfg w =
     (case Update n reg cfg w of
        None \<Rightarrow> None
      | Some (r', w') \<Rightarrow> Some (w'\<lparr>router := Some r'\<rparr>))"

definition handler :: "world \<Rightarrow> Engine option" where
  "handler w = router w"

text \<open>The events a call added to the trace.\<close>

definition events_since :: "world \<Rightarrow> world \<Rightarrow> event list" where
  "events_since w w' = drop (length (trace w)) (trace w')"

fun is_ShutdownCall :: "event \<Rightarrow> bool" where
  "is_ShutdownCall (ShutdownCall name i) = True"
| "is_ShutdownCall e = False"

fun init_called :: "event \<Rightarrow> string option" where
  "init_called (InitCall name i) = Some name"
| "init_called e = None"

fun is_init_failure :: "event \<Rightarrow> bool" where
  "is_init_failure (Println (x # xs)) = (x = ''Failed to init module:'')"
| "is_init_failure e = False"

text \<open>The units of the resolved order whose \<^verbatim>\<open>Init\<close> is called and fails: not active
  before, registered, and \<^verbatim>\<open>Init\<close> returns an error for their configuration.\<close>

definition init_fails :: "registry \<Rightarrow> Config \<Rightarrow> (string \<rightharpoonup> Module) \<Rightarrow> string \<Rightarrow> bool" where
  "init_fails reg cfg old name \<longleftrightarrow>
     old name = None \<and>
     (case map_of reg name of None \<Rightarrow> False | Some f \<Rightarrow> Init f (config_of cfg name) \<noteq> None)"

definition init_failure_line :: "registry \<Rightarrow> Config \<Rightarrow> string \<Rightarrow> event" where
  "init_failure_line reg cfg name =
     Println [''Failed to init module:'', name,
              (case map_of reg name of
                 None \<Rightarrow> []
               | Some f \<Rightarrow> (case Init f (config_of cfg name) of None \<Rightarrow> [] | Some err \<Rightarrow> err))]"

subsection \<open>The modules of the repository\<close>

text \<open>\<^verbatim>\<open>modules/user\<close>, \<^verbatim>\<open>modules/auth\<close>, \<^verbatim>\<open>modules/order\<close> and the table
  \<^verbatim>\<open>registry.Modules\<close>.\<close>

definition UserModule :: module_impl where
  "UserModule =
     \<lparr>Deps = [], Init = (\<lambda>cfg. None),
      RegisterRoutes = (\<lambda>cfg. [(''/user'',
         (case cfg ''greeting'' of Some g \<Rightarrow> g | None \<Rightarrow> ''Hello from user (default)''))]),
      Shutdown = None\<rparr>"

definition AuthModule :: module_impl where
  "AuthModule =
     \<lparr>Deps = [], Init = (\<lambda>cfg. None),
      RegisterRoutes = (\<lambda>cfg. [(''/auth'', ''Hello from auth module'')]),
      Shutdown = None\<rparr>"

definition OrderModule :: module_impl where
  "OrderModule =
     \<lparr>Deps = [''auth''], Init = (\<lambda>cfg. None),
      RegisterRoutes = (\<lambda>cfg. [(''/order'', ''Order module using DSN: '' @
         (case cfg ''dsn'' of Some d \<Rightarrow> d | None \<Rightarrow> ''memory://default''))]),
      Shutdown = None\<rparr>"

definition registry_Modules :: registry where
  "registry_Modules = [(''user'', UserModule), (''auth'', AuthModule), (''order'', OrderModule)]"

text \<open>Further registries for concrete runs: a module whose \<^verbatim>\<open>Init\<close> fails, a diamond
  of dependencies, and two modules that depend on each other.\<close>

definition plain_module :: "string list \<Rightarrow> module_impl" where
  "plain_module ds = \<lparr>Deps = ds, Init = (\<lambda>cfg. None), RegisterRoutes = (\<lambda>cfg. []), Shutdown = None\<rparr>"

definition FailingModule :: module_impl where
  "FailingModule =
     \<lparr>Deps = [], Init = (\<lambda>cfg. Some ''connection refused''),
      RegisterRoutes = (\<lambda>cfg. [(''/db'', ''db'')]), Shutdown = None\<rparr>"

definition registry_with_failing :: registry where
  "registry_with_failing = (''db'', FailingModule) # registry_Modules"

definition registry_diamond :: registry where
  "registry_diamond =
     [(''top'', plain_module [''left'', ''right'']), (''left'', plain_module [''base'']),
      (''right'', plain_module [''base'']), (''base'', plain_module [])]"

definition registry_cyclic :: registry where
  "registry_cyclic = [(''a'', plain_module [''b'']), (''b'', plain_module [''a''])]"

definition world0 :: world where
  "world0 = \<lparr>manager = \<lparr>active = Map.empty\<rparr>, router = None, next_ident = 0, trace = []\<rparr>"

subsection \<open>Auxiliary notions and concrete worlds\<close>

text \<open>The routes that the first loop of \<^verbatim>\<open>Update\<close> is to put on the engine for one
  name of the resolved order: those of the instance that is already active, else those
  of a new instance of the registered factory initialised with the name's
  configuration, and none when that \<^verbatim>\<open>Init\<close> fails.\<close>

definition routes_for :: "registry \<Rightarrow> Config \<Rightarrow> (string \<rightharpoonup> Module) \<Rightarrow> string \<Rightarrow> route list" where
  "routes_for reg cfg old name =
     (case old name of
        Some oldm \<Rightarrow> RegisterRoutes (impl oldm) (init_cfg oldm)
      | None \<Rightarrow>
          (case map_of reg name of
             None \<Rightarrow> []
           | Some f \<Rightarrow>
               if Init f (config_of cfg name) = None then RegisterRoutes f (config_of cfg name)
               else []))"

text \<open>The locals of \<^verbatim>\<open>Update\<close> after its first loop.\<close>

definition after_start :: "registry \<Rightarrow> Config \<Rightarrow> world \<Rightarrow> string list \<Rightarrow> upd" where
  "after_start reg cfg w ordered =
     start_modules reg cfg (active (manager w)) ordered
       \<lparr>newActive = Map.empty, engine = gin_Default, alloc = next_ident w, out = trace w\<rparr>"

text \<open>Configurations and worlds for concrete runs. \<open>world_auth_order\<close> is what
  \<^verbatim>\<open>rebuildRouter\<close> makes of the initial world for the request \<^verbatim>\<open>order\<close>,
  \<open>world_hi\<close> what \<^verbatim>\<open>Update\<close> makes of it for \<^verbatim>\<open>user\<close> with a greeting, and
  \<open>world_db\<close> what it makes of it for a module whose \<^verbatim>\<open>Init\<close> fails and \<^verbatim>\<open>user\<close>.\<close>

definition cfg_none :: Config where
  "cfg_none = \<lparr>Modules = [], Configs = Map.empty\<rparr>"

definition cfg_order :: Config where
  "cfg_order = \<lparr>Modules = [''order''], Configs = Map.empty\<rparr>"

definition cfg_db :: Config where
  "cfg_db = \<lparr>Modules = [''db'', ''user''], Configs = Map.empty\<rparr>"

definition cfg_unknown :: Config where
  "cfg_unknown = \<lparr>Modules = [''payments''], Configs = Map.empty\<rparr>"

definition cfg_hi :: Config where
  "cfg_hi = \<lparr>Modules = [''user''], Configs = [''user'' \<mapsto> [''greeting'' \<mapsto> ''hi'']]\<rparr>"

definition cfg_bye :: Config where
  "cfg_bye = \<lparr>Modules = [''user''], Configs = [''user'' \<mapsto> [''greeting'' \<mapsto> ''bye'']]\<rparr>"

definition world_auth_order :: world where
  "world_auth_order =
     \<lparr>manager = \<lparr>active = [''auth'' \<mapsto> \<lparr>ident = 0, impl = AuthModule, init_cfg = Map.empty\<rparr>,
                            ''order'' \<mapsto> \<lparr>ident = 1, impl = OrderModule, init_cfg = Map.empty\<rparr>]\<rparr>,
      router = Some [(''/auth'', ''Hello from auth module''),
                     (''/order'', ''Order module using DSN: memory://default'')],
      next_ident = 2,
      trace = [InitCall ''auth'' 0, RegisterRoutesCall ''auth'' 0, Println [''Started module:'', ''auth''],
               InitCall ''order'' 1, RegisterRoutesCall ''order'' 1, Println [''Started module:'', ''order'']]\<rparr>"

definition cfg_only_db :: Config where
  "cfg_only_db = \<lparr>Modules = [''db''], Configs = Map.empty\<rparr>"

definition world_hi :: world where
  "world_hi =
     \<lparr>manager = \<lparr>active = [''user'' \<mapsto> \<lparr>ident = 0, impl = UserModule,
                                         init_cfg = [''greeting'' \<mapsto> ''hi'']\<rparr>]\<rparr>,
      router = None, next_ident = 1,
      trace = [InitCall ''user'' 0, RegisterRoutesCall ''user'' 0, Println [''Started module:'', ''user'']]\<rparr>"

definition world_db :: world where
  "world_db =
     \<lparr>manager = \<lparr>active = [''user'' \<mapsto> \<lparr>ident = 1, impl = UserModule, init_cfg = Map.empty\<rparr>]\<rparr>,
      router = None, next_ident = 2,
      trace = [InitCall ''db'' 0, Println [''Failed to init module:'', ''db'', ''connection refused''],
               InitCall ''user'' 1, RegisterRoutesCall ''user'' 1, Println [''Started module:'', ''user'']]\<rparr>"


section \<open>Environment variables in configuration values\<close>

text \<open>
  \<^verbatim>\<open>utils/env.go\<close>. The process environment is a map from variable names to values;
  \<^verbatim>\<open>os.Getenv\<close> returns the empty string for a variable that is not set.
\<close>

type_synonym environ = "string \<rightharpoonup> string"

definition Getenv :: "environ \<Rightarrow> string \<Rightarrow> string" where
  "Getenv env key = (case env key of None \<Rightarrow> [] | Some v \<Rightarrow> v)"

text \<open>The character class \<^verbatim>\<open>[A-Za-z0-9_]\<close>.\<close>

definition is_key_char :: "char \<Rightarrow> bool" where
  "is_key_char c \<longleftrightarrow>
     c \<in> set ''ABCDEFGHIJKLMNOPQRSTUVWXYZabcdefghijklmnopqrstuvwxyz0123456789_''"

text \<open>
  A match of \<^verbatim>\<open>envPattern\<close>, the regular expression
  \<^verbatim>\<open>\$\{([A-Za-z0-9_]+)(?::([^}]+))?\}\<close>, at the start of a string: the matched
  text, the two groups (an absent group is the empty string, as
  \<^verbatim>\<open>FindStringSubmatch\<close> reports it) and the text after the match. Both repetitions are
  greedy and followed by a character outside their class, so the longest run is the only
  candidate: the key is the longest run of key characters, the default the longest run
  of characters other than the closing brace, which \<open>dropWhile\<close> then leaves in front.
\<close>

definition match_envPattern :: "string \<Rightarrow> (string \<times> string \<times> string \<times> string) option" where
  "match_envPattern s =
     (case s of
        c1 # c2 # t \<Rightarrow>
          if c1 = CHR ''$'' \<and> c2 = CHR ''{'' then
            (let key = takeWhile is_key_char t; u = dropWhile is_key_char t
             in if key = [] then None
                else case u of
                  [] \<Rightarrow> None
                | c3 # v \<Rightarrow>
                    if c3 = CHR ''}'' then Some (''${'' @ key @ ''}'', key, [], v)
                    else if c3 = CHR '':'' then
                      (let d = takeWhile (\<lambda>c. c \<noteq> CHR ''}'') v;
                           x = dropWhile (\<lambda>c. c \<noteq> CHR ''}'') v
                       in if d = [] then None
                          else case x of
                            [] \<Rightarrow> None
                          | c4 # rest \<Rightarrow> Some (''${'' @ key @ '':'' @ d @ ''}'', key, d, rest))
                    else None)
          else None
      | _ \<Rightarrow> None)"

text \<open>The shapes the pattern describes: a variable name, a default, and a string that
  starts with \<^verbatim>\<open>${VAR}\<close> or \<^verbatim>\<open>${VAR:default}\<close>.\<close>

definition is_key :: "string \<Rightarrow> bool" where
  "is_key k \<longleftrightarrow> k \<noteq> [] \<and> list_all is_key_char k"

definition is_default :: "string \<Rightarrow> bool" where
  "is_default d \<longleftrightarrow> d \<noteq> [] \<and> CHR ''}'' \<notin> set d"

definition pattern_at :: "string \<Rightarrow> bool" where
  "pattern_at s \<longleftrightarrow>
     (\<exists>k d rest. is_key k \<and>
        (s = ''${'' @ k @ ''}'' @ rest \<or> is_default d \<and> s = ''${'' @ k @ '':'' @ d @ ''}'' @ rest))"

text \<open>A match is a string of one of the two shapes, and it is not empty: the search for
  the next match goes on in a shorter string.\<close>

lemma match_envPattern_sound:
  assumes "match_envPattern s = Some (m, k, d, rest)"
  shows "s = m @ rest \<and> is_key k \<and>
         (d = [] \<and> m = ''${'' @ k @ ''}'' \<or> is_default d \<and> m = ''${'' @ k @ '':'' @ d @ ''}'')"
proof -
  from assms obtain t where s: "s = CHR ''$'' # CHR ''{'' # t"
    unfolding match_envPattern_def by (auto split: list.splits if_splits)
  define u where "u = dropWhile is_key_char t"
  have k: "k = takeWhile is_key_char t" and kne: "k \<noteq> []"
    using assms unfolding match_envPattern_def s
    by (auto simp: Let_def split: list.splits if_splits)
  have t: "t = k @ u"
    by (simp add: k u_def)
  have key: "is_key k"
    using kne unfolding is_key_def k list_all_iff by (auto dest: set_takeWhileD)
  from assms obtain c3 v where u: "u = c3 # v"
    unfolding match_envPattern_def s u_def
    by (auto simp: Let_def split: list.splits if_splits)
  show ?thesis
  proof (cases "c3 = CHR ''}''")
    case True
    with assms have "m = ''${'' @ k @ ''}''" "d = []" "rest = v"
      unfolding match_envPattern_def s using u kne
      by (auto simp: Let_def u_def k split: list.splits if_splits)
    with key True show ?thesis
      by (simp add: s t u)
  next
    case False
    define x where "x = dropWhile (\<lambda>c. c \<noteq> CHR ''}'') v"
    from False assms have c3: "c3 = CHR '':''"
      and d: "d = takeWhile (\<lambda>c. c \<noteq> CHR ''}'') v" and dne: "d \<noteq> []"
      and m: "m = ''${'' @ k @ '':'' @ d @ ''}''"
      unfolding match_envPattern_def s using u kne
      by (auto simp: Let_def u_def k split: list.splits if_splits)
    from False assms obtain c4 where x: "x = c4 # rest"
      unfolding match_envPattern_def s x_def using u kne
      by (auto simp: Let_def u_def k split: list.splits if_splits)
    have "c4 = CHR ''}''"
      using x by (simp add: x_def dropWhile_eq_Cons_conv)
    moreover have "v = d @ x"
      by (simp add: d x_def)
    moreover have "is_default d"
      using dne unfolding is_default_def d by (auto dest: set_takeWhileD)
    ultimately show ?thesis
      using key m by (simp add: s t u c3 x)
  qed
qed

lemma match_envPattern_shorter:
  "match_envPattern s = Some (m, k, d, rest) \<Longrightarrow> length rest < length s"
  using match_envPattern_sound [of s m k d rest] by auto

text \<open>
  \<^verbatim>\<open>envPattern.FindStringSubmatch\<close>: the leftmost match and its groups, \<open>None\<close> for
  \<^verbatim>\<open>nil\<close>. \<^verbatim>\<open>envPattern.ReplaceAllStringFunc\<close>: every match, leftmost first and not
  overlapping, is replaced by what the function returns for the matched text; the text
  between matches is copied.
\<close>

fun FindStringSubmatch :: "string \<Rightarrow> string list option" where
  "FindStringSubmatch [] = None"
| "FindStringSubmatch (c # cs) =
     (case match_envPattern (c # cs) of
        Some (m, key, d, rest) \<Rightarrow> Some [m, key, d]
      | None \<Rightarrow> FindStringSubmatch cs)"

function ReplaceAllStringFunc :: "(string \<Rightarrow> string) \<Rightarrow> string \<Rightarrow> string" where
  "ReplaceAllStringFunc repl [] = []"
| "ReplaceAllStringFunc repl (c # cs) =
     (case match_envPattern (c # cs) of
        Some (m, key, d, rest) \<Rightarrow> repl m @ ReplaceAllStringFunc repl rest
      | None \<Rightarrow> c # ReplaceAllStringFunc repl cs)"
  by pat_completeness auto
termination
  by (relation "measure (\<lambda>(repl, s). length s)")
     (auto dest: match_envPattern_shorter)

text \<open>\<^verbatim>\<open>func ExpandEnv(s string) string\<close>, with the environment it reads.\<close>

definition ExpandEnv :: "environ \<Rightarrow> string \<Rightarrow> string" where
  "ExpandEnv env s =
     ReplaceAllStringFunc
       (\<lambda>m. case FindStringSubmatch m of
              None \<Rightarrow> m
            | Some groups \<Rightarrow>
                if length groups < 2 then m
                else
                  (let key = groups ! 1;
                       def = (if length groups > 2 then groups ! 2 else [])
                   in if Getenv env key \<noteq> [] then Getenv env key
                      else if def \<noteq> [] then def
                      else m)) s"

text \<open>The value the claim gives a reference: the variable's value when it is set and
  not empty, else the fallback.\<close>

definition env_value :: "environ \<Rightarrow> string \<Rightarrow> string \<Rightarrow> string" where
  "env_value env k fallback = (case env k of None \<Rightarrow> fallback | Some v \<Rightarrow> if v = [] then fallback else v)"

definition env0 :: environ where
  "env0 = [''HOME'' \<mapsto> ''/root'', ''EMPTY'' \<mapsto> '''']"

section \<open>Properties of the dependency resolution\<close>

text \<open>A call that returns within \<open>n\<close> nested calls returns the same within any larger number.\<close>

lemma visit_each_mono_aux:
  assumes "\<And>a s r. visit n reg a s = Some r \<Longrightarrow> visit m reg a s = Some r"
  shows "visit_each n reg ds s = Some r \<Longrightarrow> visit_each m reg ds s = Some r"
proof (induction ds arbitrary: s)
  case Nil
  then show ?case by simp
next
  case (Cons d ds)
  then show ?case
    by (auto split: option.splits sum.splits dest!: assms)
qed

lemma visit_mono: "visit n reg a s = Some r \<Longrightarrow> n \<le> m \<Longrightarrow> visit m reg a s = Some r"
proof (induction n arbitrary: m a s r)
  case 0
  then show ?case by simp
next
  case (Suc n)
  then obtain m' where m: "m = Suc m'" and le: "n \<le> m'"
    by (cases m) auto
  have step: "\<And>ds s r. visit_each n reg ds s = Some r \<Longrightarrow> visit_each m' reg ds s = Some r"
    using visit_each_mono_aux [of n reg m'] Suc.IH le by blast
  show ?case
    using Suc.prems(1) unfolding m
    by (auto split: if_splits option.splits sum.splits dest!: step)
qed

lemma visit_each_mono: "visit_each n reg ds s = Some r \<Longrightarrow> n \<le> m \<Longrightarrow> visit_each m reg ds s = Some r"
  using visit_each_mono_aux [of n reg m] visit_mono by blast

text \<open>A name from which a cycle can be reached has a dependency with the same property,
  so \<^verbatim>\<open>visit\<close> can never finish such a name: no name that reaches a cycle is ever marked.\<close>

lemma reaches_cycle_step:
  assumes "reaches_cycle reg a"
  shows "\<exists>f d. map_of reg a = Some f \<and> d \<in> set (Deps f) \<and> reaches_cycle reg d"
proof -
  from assms obtain y where ay: "(a, y) \<in> (dep_edges reg)\<^sup>*" and yy: "(y, y) \<in> (dep_edges reg)\<^sup>+"
    unfolding reaches_cycle_def by blast
  have "(a, y) \<in> (dep_edges reg)\<^sup>+"
    using ay yy by (meson rtrancl_trancl_trancl)
  then obtain d where ad: "(a, d) \<in> dep_edges reg" and dy: "(d, y) \<in> (dep_edges reg)\<^sup>*"
    by (meson tranclD)
  have "reaches_cycle reg d"
    unfolding reaches_cycle_def using dy yy by blast
  with ad show ?thesis
    unfolding dep_edges_def by blast
qed

lemma reaches_cycle_edge:
  "(a, d) \<in> dep_edges reg \<Longrightarrow> reaches_cycle reg d \<Longrightarrow> reaches_cycle reg a"
  unfolding reaches_cycle_def by (meson converse_rtrancl_into_rtrancl)

lemma visit_cycle_free:
  "visit n reg a s = Some (Inr s') \<Longrightarrow>
     (\<forall>x. visited s x = Some True \<longrightarrow> \<not> reaches_cycle reg x) \<Longrightarrow>
     \<not> reaches_cycle reg a \<and> (\<forall>x. visited s' x = Some True \<longrightarrow> \<not> reaches_cycle reg x)"
  "visit_each n reg ds s = Some (Inr s') \<Longrightarrow>
     (\<forall>x. visited s x = Some True \<longrightarrow> \<not> reaches_cycle reg x) \<Longrightarrow>
     (\<forall>d\<in>set ds. \<not> reaches_cycle reg d) \<and> (\<forall>x. visited s' x = Some True \<longrightarrow> \<not> reaches_cycle reg x)"
proof (induction n reg a s and n reg ds s arbitrary: s' and s' rule: visit_visit_each.induct)
  case (1 reg name s)
  then show ?case by simp
next
  case (2 n reg name s)
  show ?case
  proof (cases "visited s name = Some True")
    case True
    with "2.prems" show ?thesis by auto
  next
    case False
    with "2.prems"(1) obtain f s1 where f: "map_of reg name = Some f"
      and s1: "visit_each n reg (Deps f) s = Some (Inr s1)"
      and s': "s' = s1\<lparr>visited := (visited s1)(name \<mapsto> True), result := result s1 @ [name]\<rparr>"
      by (auto split: option.splits sum.splits)
    from "2.IH" [OF False f s1 "2.prems"(2)]
    have deps: "\<forall>d\<in>set (Deps f). \<not> reaches_cycle reg d"
      and vis: "\<forall>x. visited s1 x = Some True \<longrightarrow> \<not> reaches_cycle reg x"
      by blast+
    have "\<not> reaches_cycle reg name"
      using reaches_cycle_step [of reg name] f deps by auto
    with vis show ?thesis
      by (simp add: s')
  qed
next
  case (3 n reg s)
  then show ?case by simp
next
  case (4 n reg dep deps s)
  from "4.prems"(1) obtain s1 where s1: "visit n reg dep s = Some (Inr s1)"
    and rest: "visit_each n reg deps s1 = Some (Inr s')"
    by (auto split: option.splits sum.splits)
  from "4.IH"(1) [OF s1 "4.prems"(2)] have a: "\<not> reaches_cycle reg dep"
    and v1: "\<forall>x. visited s1 x = Some True \<longrightarrow> \<not> reaches_cycle reg x"
    by blast+
  from "4.IH"(2) [OF s1 refl rest v1] a show ?case
    by simp
qed

text \<open>Lists in which dependencies come first: they are closed under dependencies, every
  transitive dependency of an element stands before it, and no element lies on a cycle.\<close>

lemma deps_before_snoc:
  "deps_before reg (xs @ [x]) \<longleftrightarrow>
     deps_before reg xs \<and> (\<exists>f. map_of reg x = Some f \<and> set (Deps f) \<subseteq> set xs)"
  unfolding deps_before_def
  by (auto simp: nth_append less_Suc_eq all_conj_distrib)

lemma deps_before_Nil: "deps_before reg []"
  by (simp add: deps_before_def)

lemma deps_before_edge:
  assumes "deps_before reg xs" and "i < length xs" and "(xs ! i, d) \<in> dep_edges reg"
  shows "d \<in> set (take i xs)"
  using assms unfolding deps_before_def dep_edges_def by fastforce

lemma deps_before_trancl:
  assumes db: "deps_before reg xs" and i: "i < length xs"
    and path: "(xs ! i, d) \<in> (dep_edges reg)\<^sup>+"
  shows "d \<in> set (take i xs)"
  using path
proof (induction rule: trancl_induct)
  case (base y)
  then show ?case using deps_before_edge [OF db i] by blast
next
  case (step y z)
  from step.IH obtain j where j: "j < i" and y: "y = xs ! j"
    using i by (auto simp: in_set_conv_nth)
  have "j < length xs" using j i by simp
  from deps_before_edge [OF db this] step.hyps(2) y have "z \<in> set (take j xs)"
    by blast
  then show ?case
    using j by (meson less_imp_le_nat set_take_subset_set_take subsetD)
qed

lemma deps_before_no_cycle:
  assumes db: "deps_before reg xs" and d: "distinct xs" and x: "x \<in> set xs"
  shows "\<not> reaches_cycle reg x"
proof
  assume "reaches_cycle reg x"
  then obtain y where xy: "(x, y) \<in> (dep_edges reg)\<^sup>*" and yy: "(y, y) \<in> (dep_edges reg)\<^sup>+"
    unfolding reaches_cycle_def by blast
  from x obtain i where i: "i < length xs" and xi: "x = xs ! i"
    by (auto simp: in_set_conv_nth)
  have "y \<in> set xs"
  proof (cases "x = y")
    case True
    with x show ?thesis by simp
  next
    case False
    with xy have "(xs ! i, y) \<in> (dep_edges reg)\<^sup>+"
      unfolding xi by (meson rtranclD)
    from deps_before_trancl [OF db i this] show ?thesis
      by (meson in_set_takeD)
  qed
  then obtain j where j: "j < length xs" and yj: "y = xs ! j"
    by (auto simp: in_set_conv_nth)
  from deps_before_trancl [OF db j] yy yj have "xs ! j \<in> set (take j xs)"
    by simp
  then obtain k where "k < j" and "xs ! k = xs ! j"
    using j by (auto simp: in_set_conv_nth)
  with d j show False
    by (simp add: nth_eq_iff_index_eq)
qed

lemma dfs_inv_cycle_free:
  "dfs_inv reg s \<Longrightarrow> visited s x = Some True \<Longrightarrow> \<not> reaches_cycle reg x"
  unfolding dfs_inv_def using deps_before_no_cycle by blast

text \<open>A returning \<^verbatim>\<open>visit\<close> keeps the invariant, appends to \<^verbatim>\<open>result\<close> only names
  reachable from its argument, and leaves its argument in \<^verbatim>\<open>result\<close>.\<close>

lemma visit_inv:
  "visit n reg a s = Some (Inr s') \<Longrightarrow> dfs_inv reg s \<Longrightarrow>
     dfs_inv reg s' \<and> a \<in> set (result s') \<and>
     (\<exists>new. result s' = result s @ new \<and> set new \<subseteq> (dep_edges reg)\<^sup>* `` {a})"
  "visit_each n reg ds s = Some (Inr s') \<Longrightarrow> dfs_inv reg s \<Longrightarrow>
     dfs_inv reg s' \<and> set ds \<subseteq> set (result s') \<and>
     (\<exists>new. result s' = result s @ new \<and> set new \<subseteq> (dep_edges reg)\<^sup>* `` set ds)"
proof (induction n reg a s and n reg ds s arbitrary: s' and s' rule: visit_visit_each.induct)
  case (1 reg name s)
  then show ?case by simp
next
  case (2 n reg name s)
  show ?case
  proof (cases "visited s name = Some True")
    case True
    with "2.prems" show ?thesis by (auto simp: dfs_inv_def)
  next
    case False
    with "2.prems"(1) obtain f s1 where f: "map_of reg name = Some f"
      and s1: "visit_each n reg (Deps f) s = Some (Inr s1)"
      and s': "s' = s1\<lparr>visited := (visited s1)(name \<mapsto> True), result := result s1 @ [name]\<rparr>"
      by (auto split: option.splits sum.splits)
    from "2.IH" [OF False f s1 "2.prems"(2)] obtain new
      where inv1: "dfs_inv reg s1" and deps: "set (Deps f) \<subseteq> set (result s1)"
        and r1: "result s1 = result s @ new"
        and new: "set new \<subseteq> (dep_edges reg)\<^sup>* `` set (Deps f)"
      by blast
    have edge: "\<And>d. d \<in> set (Deps f) \<Longrightarrow> (name, d) \<in> dep_edges reg"
      using f by (auto simp: dep_edges_def)
    have nocyc: "\<not> reaches_cycle reg name"
      using visit_cycle_free(1) [OF "2.prems"(1)] dfs_inv_cycle_free [OF "2.prems"(2)] by blast
    have "name \<notin> set (result s)"
      using False "2.prems"(2) by (simp add: dfs_inv_def)
    moreover have "name \<notin> set new"
    proof
      assume "name \<in> set new"
      with new obtain d where d: "d \<in> set (Deps f)" and "(d, name) \<in> (dep_edges reg)\<^sup>*"
        by blast
      with edge [OF d] have "(name, name) \<in> (dep_edges reg)\<^sup>+"
        by (meson rtrancl_into_trancl2)
      then have "reaches_cycle reg name"
        unfolding reaches_cycle_def by blast
      with nocyc show False ..
    qed
    ultimately have fresh: "name \<notin> set (result s1)"
      by (simp add: r1)
    have inv': "dfs_inv reg s'"
      using inv1 fresh deps f unfolding dfs_inv_def s'
      by (auto simp: deps_before_snoc)
    have "set (new @ [name]) \<subseteq> (dep_edges reg)\<^sup>* `` {name}"
    proof
      fix x assume "x \<in> set (new @ [name])"
      then consider "x = name" | "x \<in> set new" by auto
      then show "x \<in> (dep_edges reg)\<^sup>* `` {name}"
      proof cases
        case 1
        then show ?thesis by simp
      next
        case 2
        with new obtain d where d: "d \<in> set (Deps f)" and "(d, x) \<in> (dep_edges reg)\<^sup>*"
          by blast
        with edge [OF d] show ?thesis
          by (meson Image_singleton_iff converse_rtrancl_into_rtrancl)
      qed
    qed
    moreover have "result s' = result s @ (new @ [name])"
      by (simp add: s' r1)
    ultimately show ?thesis
      using inv' by (metis in_set_conv_decomp s' append_assoc)
  qed
next
  case (3 n reg s)
  then show ?case by simp
next
  case (4 n reg dep deps s)
  from "4.prems"(1) obtain s1 where s1: "visit n reg dep s = Some (Inr s1)"
    and rest: "visit_each n reg deps s1 = Some (Inr s')"
    by (auto split: option.splits sum.splits)
  from "4.IH"(1) [OF s1 "4.prems"(2)] obtain new1 where inv1: "dfs_inv reg s1"
    and dep: "dep \<in> set (result s1)" and r1: "result s1 = result s @ new1"
    and new1: "set new1 \<subseteq> (dep_edges reg)\<^sup>* `` {dep}"
    by blast
  from "4.IH"(2) [OF s1 refl rest inv1] obtain new2 where inv': "dfs_inv reg s'"
    and deps: "set deps \<subseteq> set (result s')" and r2: "result s' = result s1 @ new2"
    and new2: "set new2 \<subseteq> (dep_edges reg)\<^sup>* `` set deps"
    by blast
  have "result s' = result s @ (new1 @ new2)"
    by (simp add: r1 r2)
  moreover have "set (new1 @ new2) \<subseteq> (dep_edges reg)\<^sup>* `` set (dep # deps)"
    using new1 new2 by auto
  moreover have "set (dep # deps) \<subseteq> set (result s')"
    using dep deps r2 by auto
  ultimately show ?case
    using inv' by blast
qed

text \<open>The registry is a finite table, so the dependency edges out of cycle-free names are
  well-founded; along them \<^verbatim>\<open>visit\<close> returns.\<close>

lemma finite_dep_edges: "finite (dep_edges reg)"
proof -
  have "dep_edges reg \<subseteq> fst ` set reg \<times> (\<Union>f\<in>snd ` set reg. set (Deps f))"
    unfolding dep_edges_def by (auto dest!: map_of_SomeD intro: rev_image_eqI)
  then show ?thesis
    by (rule finite_subset) simp
qed

lemma dep_of_rtrancl: "(x, y) \<in> (dep_of reg)\<^sup>* \<Longrightarrow> (y, x) \<in> (dep_edges reg)\<^sup>*"
  by (induction rule: rtrancl_induct) (auto simp: dep_of_def intro: converse_rtrancl_into_rtrancl)

lemma wf_dep_of: "wf (dep_of reg)"
proof (rule finite_acyclic_wf)
  have "dep_of reg \<subseteq> (dep_edges reg)\<inverse>"
    by (auto simp: dep_of_def)
  then show "finite (dep_of reg)"
    using finite_dep_edges [of reg] by (meson finite_converse finite_subset)
  show "acyclic (dep_of reg)"
    unfolding acyclic_def
  proof (intro allI notI)
    fix x assume "(x, x) \<in> (dep_of reg)\<^sup>+"
    then obtain z where xz: "(x, z) \<in> dep_of reg" and zx: "(z, x) \<in> (dep_of reg)\<^sup>*"
      by (meson tranclD)
    from xz have e: "(z, x) \<in> dep_edges reg" and nc: "\<not> reaches_cycle reg z"
      by (auto simp: dep_of_def)
    from dep_of_rtrancl [OF zx] e have "(z, z) \<in> (dep_edges reg)\<^sup>+"
      by (meson rtrancl_into_trancl2)
    then have "reaches_cycle reg z"
      unfolding reaches_cycle_def by blast
    with nc show False ..
  qed
qed

lemma visit_each_returns:
  assumes "\<And>d s. d \<in> set ds \<Longrightarrow> \<exists>n s'. visit n reg d s = Some (Inr s')"
  shows "\<exists>n s'. visit_each n reg ds s = Some (Inr s')"
  using assms
proof (induction ds arbitrary: s)
  case Nil
  then show ?case by simp
next
  case (Cons d ds)
  from Cons.prems [of d s] obtain n1 s1 where v1: "visit n1 reg d s = Some (Inr s1)"
    by auto
  from Cons.IH [of s1] Cons.prems obtain n2 s2 where v2: "visit_each n2 reg ds s1 = Some (Inr s2)"
    by auto
  have "visit (max n1 n2) reg d s = Some (Inr s1)"
    using visit_mono [OF v1, of "max n1 n2"] by simp
  moreover have "visit_each (max n1 n2) reg ds s1 = Some (Inr s2)"
    using visit_each_mono [OF v2, of "max n1 n2"] by simp
  ultimately have "visit_each (max n1 n2) reg (d # ds) s = Some (Inr s2)"
    by simp
  then show ?case by blast
qed

lemma visit_returns:
  assumes "\<not> reaches_cycle reg a"
    and "(dep_edges reg)\<^sup>* `` {a} \<subseteq> fst ` set reg"
  shows "\<exists>n s'. visit n reg a s = Some (Inr s')"
  using assms
proof (induction a arbitrary: s rule: wf_induct_rule [OF wf_dep_of [of reg]])
  case (1 a)
  have "a \<in> fst ` set reg"
    using "1.prems"(2) by auto
  then obtain f where f: "map_of reg a = Some f"
    by (metis domD dom_map_of_conv_image_fst)
  have each: "\<exists>n s'. visit n reg d t = Some (Inr s')" if d: "d \<in> set (Deps f)" for d t
  proof -
    have e: "(a, d) \<in> dep_edges reg"
      using f d by (auto simp: dep_edges_def)
    then have "(d, a) \<in> dep_of reg"
      using "1.prems"(1) by (simp add: dep_of_def)
    moreover have "\<not> reaches_cycle reg d"
      using reaches_cycle_edge [OF e] "1.prems"(1) by blast
    moreover have "(dep_edges reg)\<^sup>* `` {d} \<subseteq> fst ` set reg"
      using "1.prems"(2) e by (auto intro: converse_rtrancl_into_rtrancl)
    ultimately show ?thesis
      using "1.IH" by blast
  qed
  from visit_each_returns [of "Deps f" reg s] each
  obtain n s1 where "visit_each n reg (Deps f) s = Some (Inr s1)"
    by blast
  then have "\<exists>s'. visit (Suc n) reg a s = Some (Inr s')"
    using f by simp
  then show ?case by blast
qed

text \<open>A returned error names an unregistered module reachable from the argument.\<close>

lemma visit_error:
  "visit n reg a s = Some (Inl e) \<Longrightarrow>
     \<exists>x. e = UnknownModule x \<and> (a, x) \<in> (dep_edges reg)\<^sup>* \<and> map_of reg x = None"
  "visit_each n reg ds s = Some (Inl e) \<Longrightarrow>
     \<exists>x. e = UnknownModule x \<and> x \<in> (dep_edges reg)\<^sup>* `` set ds \<and> map_of reg x = None"
proof (induction n reg a s and n reg ds s rule: visit_visit_each.induct)
  case (1 reg name s)
  then show ?case by simp
next
  case (2 n reg name s)
  show ?case
  proof (cases "map_of reg name")
    case None
    with "2.prems" show ?thesis
      by (auto split: if_splits)
  next
    case (Some f)
    with "2.prems" have nv: "visited s name \<noteq> Some True"
      and err: "visit_each n reg (Deps f) s = Some (Inl e)"
      by (auto split: if_splits option.splits sum.splits)
    from "2.IH" [OF nv Some err] obtain x d where "e = UnknownModule x"
      and "d \<in> set (Deps f)" and "(d, x) \<in> (dep_edges reg)\<^sup>*" and "map_of reg x = None"
      by blast
    moreover have "(name, d) \<in> dep_edges reg"
      using Some \<open>d \<in> set (Deps f)\<close> by (auto simp: dep_edges_def)
    ultimately have "e = UnknownModule x \<and> (name, x) \<in> (dep_edges reg)\<^sup>* \<and> map_of reg x = None"
      by (simp add: converse_rtrancl_into_rtrancl)
    then show ?thesis by blast
  qed
next
  case (3 n reg s)
  then show ?case by simp
next
  case (4 n reg dep deps s)
  from "4.prems" consider "visit n reg dep s = Some (Inl e)"
    | s1 where "visit n reg dep s = Some (Inr s1)" "visit_each n reg deps s1 = Some (Inl e)"
    by (auto split: option.splits sum.splits)
  then show ?case
  proof cases
    case 1
    from "4.IH"(1) [OF this] show ?thesis by auto
  next
    case 2
    from "4.IH"(2) [OF 2(1) refl 2(2)] show ?thesis by auto
  qed
qed

lemma deps_before_closed:
  assumes "deps_before reg xs" and "x \<in> set xs" and "(x, y) \<in> (dep_edges reg)\<^sup>*"
  shows "y \<in> set xs"
  using assms(3,2)
proof (induction rule: rtrancl_induct)
  case base
  then show ?case by simp
next
  case (step y z)
  then obtain i where "i < length xs" and "xs ! i = y"
    by (auto simp: in_set_conv_nth)
  with deps_before_edge [OF assms(1), of i z] step.hyps(2) show ?case
    by (meson in_set_takeD)
qed

lemma dfs_inv_init: "dfs_inv reg \<lparr>visited = Map.empty, result = []\<rparr>"
  by (simp add: dfs_inv_def deps_before_Nil)

lemma resolve_sound:
  assumes "resolveDependencies n reg modNames = Some (Inr order)"
  shows "distinct order \<and> deps_before reg order \<and> set order = dep_closure reg (set modNames)"
proof -
  from assms obtain s where s: "visit_each n reg modNames \<lparr>visited = Map.empty, result = []\<rparr> = Some (Inr s)"
    and order: "order = result s"
    by (auto simp: resolveDependencies_def split: option.splits sum.splits)
  from visit_inv(2) [OF s dfs_inv_init] have inv: "dfs_inv reg s"
    and names: "set modNames \<subseteq> set order"
    and sub: "set order \<subseteq> (dep_edges reg)\<^sup>* `` set modNames"
    by (auto simp: order)
  have "dep_closure reg (set modNames) \<subseteq> set order"
    using names deps_before_closed [of reg order] inv
    by (auto simp: dep_closure_def dfs_inv_def order)
  with sub inv show ?thesis
    by (auto simp: dep_closure_def dfs_inv_def order)
qed

lemma resolve_returns:
  assumes "dep_closure reg (set modNames) \<subseteq> fst ` set reg"
    and "\<forall>a\<in>set modNames. \<not> reaches_cycle reg a"
  shows "\<exists>n order. resolveDependencies n reg modNames = Some (Inr order)"
proof -
  have "\<exists>n s'. visit n reg d s = Some (Inr s')" if "d \<in> set modNames" for d s
  proof (rule visit_returns)
    show "\<not> reaches_cycle reg d" using assms(2) that by blast
    show "(dep_edges reg)\<^sup>* `` {d} \<subseteq> fst ` set reg"
      using assms(1) that by (auto simp: dep_closure_def)
  qed
  from visit_each_returns [of modNames reg] this
  obtain n s' where "visit_each n reg modNames \<lparr>visited = Map.empty, result = []\<rparr> = Some (Inr s')"
    by blast
  then have "resolveDependencies n reg modNames = Some (Inr (result s'))"
    by (simp add: resolveDependencies_def)
  then show ?thesis by blast
qed

lemma resolve_mono:
  "resolveDependencies n reg modNames = Some r \<Longrightarrow> n \<le> m \<Longrightarrow> resolveDependencies m reg modNames = Some r"
  unfolding resolveDependencies_def
  by (auto split: option.splits sum.splits dest: visit_each_mono)


text \<open>What a returned order says about the request: every reachable name is registered
  and none reaches a cycle.\<close>

lemma resolve_hyps:
  assumes "resolveDependencies n reg modNames = Some (Inr order)"
  shows "dep_closure reg (set modNames) \<subseteq> fst ` set reg"
    and "\<forall>a\<in>set modNames. \<not> reaches_cycle reg a"
proof -
  from resolve_sound [OF assms] have d: "distinct order" and db: "deps_before reg order"
    and cl: "set order = dep_closure reg (set modNames)"
    by blast+
  show "dep_closure reg (set modNames) \<subseteq> fst ` set reg"
  proof
    fix x assume "x \<in> dep_closure reg (set modNames)"
    then have "x \<in> set order"
      unfolding cl .
    then obtain i where "i < length order" and "order ! i = x"
      by (auto simp: in_set_conv_nth)
    with db obtain f where "map_of reg x = Some f"
      unfolding deps_before_def by blast
    then show "x \<in> fst ` set reg"
      by (meson domI dom_map_of_conv_image_fst [THEN equalityD1] subsetD)
  qed
  have "set modNames \<subseteq> set order"
    unfolding cl dep_closure_def by auto
  then show "\<forall>a\<in>set modNames. \<not> reaches_cycle reg a"
    using deps_before_no_cycle [OF db d] by blast
qed

lemma resolve_error:
  assumes "resolveDependencies n reg modNames = Some (Inl e)"
  shows "\<exists>x. e = UnknownModule x \<and> x \<in> dep_closure reg (set modNames) \<and> map_of reg x = None"
proof -
  from assms have "visit_each n reg modNames \<lparr>visited = Map.empty, result = []\<rparr> = Some (Inl e)"
    by (auto simp: resolveDependencies_def split: option.splits sum.splits)
  from visit_error(2) [OF this] show ?thesis
    by (simp add: dep_closure_def)
qed

text \<open>The loop over a concatenation, the place of a name that \<^verbatim>\<open>visit\<close> appends, and
  the part of the registry that the resolution reads.\<close>

lemma visit_each_append:
  "visit_each n reg (xs @ ys) s =
     (case visit_each n reg xs s of
        None \<Rightarrow> None
      | Some (Inl e) \<Rightarrow> Some (Inl e)
      | Some (Inr s1) \<Rightarrow> visit_each n reg ys s1)"
  by (induction xs arbitrary: s) (auto split: option.splits sum.splits)

lemma visit_appends_last:
  assumes "visit n reg a s = Some (Inr s')" and "dfs_inv reg s" and "visited s a \<noteq> Some True"
  shows "\<exists>new. result s' = result s @ new @ [a]"
proof (cases n)
  case 0
  with assms show ?thesis by simp
next
  case (Suc k)
  with assms(1,3) obtain f s1 where "map_of reg a = Some f"
    and s1: "visit_each k reg (Deps f) s = Some (Inr s1)"
    and s': "s' = s1\<lparr>visited := (visited s1)(a \<mapsto> True), result := result s1 @ [a]\<rparr>"
    by (auto split: option.splits sum.splits)
  from visit_inv(2) [OF s1 assms(2)] obtain new where "result s1 = result s @ new"
    by blast
  then show ?thesis by (simp add: s')
qed

lemma visit_deps_only:
  "(\<And>x. map_option Deps (map_of reg' x) = map_option Deps (map_of reg x)) \<Longrightarrow>
     visit n reg' a s = visit n reg a s"
  "(\<And>x. map_option Deps (map_of reg' x) = map_option Deps (map_of reg x)) \<Longrightarrow>
     visit_each n reg' ds s = visit_each n reg ds s"
proof (induction n reg a s and n reg ds s rule: visit_visit_each.induct)
  case (1 reg name s)
  then show ?case by simp
next
  case (2 n reg name s)
  show ?case
  proof (cases "visited s name = Some True")
    case True
    then show ?thesis by simp
  next
    case nv: False
    show ?thesis
    proof (cases "map_of reg name")
      case None
      with "2.prems" [of name] have "map_of reg' name = None" by simp
      with None nv show ?thesis by simp
    next
      case (Some f)
      with "2.prems" [of name] obtain f' where f': "map_of reg' name = Some f'" and d: "Deps f' = Deps f"
        by auto
      from "2.IH" [OF nv Some "2.prems"] f' d Some nv show ?thesis
        by simp
    qed
  qed
next
  case (3 n reg s)
  then show ?case by simp
next
  case (4 n reg dep deps s)
  from "4.IH"(1) [OF "4.prems"] have v: "visit n reg' dep s = visit n reg dep s" .
  show ?case
  proof (cases "visit n reg dep s")
    case None
    with v show ?thesis by simp
  next
    case (Some r)
    show ?thesis
    proof (cases r)
      case (Inl e)
      with v Some show ?thesis by simp
    next
      case (Inr s1)
      from "4.IH"(2) [OF Some Inr "4.prems"] v Some Inr show ?thesis by simp
    qed
  qed
qed

lemma resolve_requested_position:
  assumes r: "resolveDependencies n reg modNames = Some (Inr order)"
    and j: "j < length modNames"
    and fresh: "modNames ! j \<notin> dep_closure reg (set (take j modNames))"
  shows "\<exists>pre post. order = pre @ modNames ! j # post \<and>
           set pre = dep_closure reg (set (take (Suc j) modNames)) - {modNames ! j}"
proof -
  let ?a = "modNames ! j"
  let ?init = "\<lparr>visited = Map.empty, result = []\<rparr>"
  have split: "modNames = (take j modNames @ [?a]) @ drop (Suc j) modNames"
    using j by (simp add: id_take_nth_drop [symmetric])
  from r obtain s where s: "visit_each n reg modNames ?init = Some (Inr s)"
    and order: "order = result s"
    by (auto simp: resolveDependencies_def split: option.splits sum.splits)
  from s obtain s2 where s2: "visit_each n reg (take j modNames @ [?a]) ?init = Some (Inr s2)"
    and rest: "visit_each n reg (drop (Suc j) modNames) s2 = Some (Inr s)"
    by (subst (asm) split, subst (asm) visit_each_append) (auto split: option.splits sum.splits)
  from s2 obtain s1 where s1: "visit_each n reg (take j modNames) ?init = Some (Inr s1)"
    and va: "visit n reg ?a s1 = Some (Inr s2)"
    by (auto simp: visit_each_append split: option.splits sum.splits)
  have r1: "resolveDependencies n reg (take j modNames) = Some (Inr (result s1))"
    using s1 by (simp add: resolveDependencies_def)
  have r2: "resolveDependencies n reg (take (Suc j) modNames) = Some (Inr (result s2))"
    using s2 j by (simp add: resolveDependencies_def take_Suc_conv_app_nth)
  from visit_inv(2) [OF s1 dfs_inv_init] have inv1: "dfs_inv reg s1"
    by blast
  have "?a \<notin> set (result s1)"
    using resolve_sound [OF r1] fresh by simp
  then have "visited s1 ?a \<noteq> Some True"
    using inv1 by (simp add: dfs_inv_def)
  from visit_appends_last [OF va inv1 this] obtain new
    where res2: "result s2 = result s1 @ new @ [?a]"
    by blast
  from visit_inv(1) [OF va inv1] have inv2: "dfs_inv reg s2"
    by blast
  from visit_inv(2) [OF rest inv2] obtain post where res: "result s = result s2 @ post"
    by blast
  have "distinct (result s2)" and "set (result s2) = dep_closure reg (set (take (Suc j) modNames))"
    using resolve_sound [OF r2] by blast+
  then have "set (result s1 @ new) = dep_closure reg (set (take (Suc j) modNames)) - {?a}"
    unfolding res2 by auto
  moreover have "order = (result s1 @ new) @ ?a # post"
    by (simp add: order res res2)
  ultimately show ?thesis
    by blast
qed

text \<open>Starting from a state in which more names are marked, \<^verbatim>\<open>visit\<close> appends the same
  names in the same order, without those already there.\<close>

lemma dfs_inv_closed:
  "dfs_inv reg t \<Longrightarrow> a \<in> set (result t) \<Longrightarrow> (a, y) \<in> (dep_edges reg)\<^sup>* \<Longrightarrow> y \<in> set (result t)"
  unfolding dfs_inv_def using deps_before_closed by blast

lemma visit_more_visited:
  "visit n reg a s = Some (Inr s') \<Longrightarrow> dfs_inv reg s \<Longrightarrow> dfs_inv reg t \<Longrightarrow>
     set (result s) \<subseteq> set (result t) \<Longrightarrow>
     \<exists>t' new. result s' = result s @ new \<and> visit n reg a t = Some (Inr t') \<and>
       result t' = result t @ filter (\<lambda>y. y \<notin> set (result t)) new"
  "visit_each n reg ds s = Some (Inr s') \<Longrightarrow> dfs_inv reg s \<Longrightarrow> dfs_inv reg t \<Longrightarrow>
     set (result s) \<subseteq> set (result t) \<Longrightarrow>
     \<exists>t' new. result s' = result s @ new \<and> visit_each n reg ds t = Some (Inr t') \<and>
       result t' = result t @ filter (\<lambda>y. y \<notin> set (result t)) new"
proof (induction n reg a s and n reg ds s arbitrary: s' t and s' t rule: visit_visit_each.induct)
  case (1 reg name s)
  then show ?case by simp
next
  case (2 n reg name s)
  note inv_s = "2.prems"(2) and inv_t = "2.prems"(3) and sub = "2.prems"(4)
  show ?case
  proof (cases "visited s name = Some True")
    case True
    with "2.prems"(1) have s': "s' = s" by simp
    from True inv_s sub have "name \<in> set (result t)"
      by (auto simp: dfs_inv_def)
    with inv_t have "visited t name = Some True"
      by (simp add: dfs_inv_def)
    then have "visit (Suc n) reg name t = Some (Inr t)" by simp
    with s' show ?thesis by simp
  next
    case False
    with "2.prems"(1) obtain f s1 where f: "map_of reg name = Some f"
      and s1: "visit_each n reg (Deps f) s = Some (Inr s1)"
      and s': "s' = s1\<lparr>visited := (visited s1)(name \<mapsto> True), result := result s1 @ [name]\<rparr>"
      by (auto split: option.splits sum.splits)
    show ?thesis
    proof (cases "visited t name = Some True")
      case True
      then have vt: "visit (Suc n) reg name t = Some (Inr t)" by simp
      from True inv_t have nt: "name \<in> set (result t)"
        by (simp add: dfs_inv_def)
      from visit_inv(2) [OF s1 inv_s] obtain new1 where r1: "result s1 = result s @ new1"
        and new1: "set new1 \<subseteq> (dep_edges reg)\<^sup>* `` set (Deps f)"
        by blast
      have "y \<in> set (result t)" if "y \<in> set new1" for y
      proof -
        from that new1 obtain d where d: "d \<in> set (Deps f)" and dy: "(d, y) \<in> (dep_edges reg)\<^sup>*"
          by blast
        have "(name, d) \<in> dep_edges reg"
          using f d by (auto simp: dep_edges_def)
        with dy have "(name, y) \<in> (dep_edges reg)\<^sup>*"
          by (meson converse_rtrancl_into_rtrancl)
        with dfs_inv_closed [OF inv_t nt] show ?thesis by blast
      qed
      then have "filter (\<lambda>y. y \<notin> set (result t)) (new1 @ [name]) = []"
        using nt by (auto simp: filter_empty_conv)
      moreover have "result s' = result s @ (new1 @ [name])"
        by (simp add: s' r1)
      ultimately show ?thesis
        using vt by (metis append_Nil2)
    next
      case nvt: False
      from "2.IH" [OF False f s1 inv_s inv_t sub] obtain t1 new1
        where r1: "result s1 = result s @ new1"
          and t1: "visit_each n reg (Deps f) t = Some (Inr t1)"
          and rt1: "result t1 = result t @ filter (\<lambda>y. y \<notin> set (result t)) new1"
        by blast
      let ?t' = "t1\<lparr>visited := (visited t1)(name \<mapsto> True), result := result t1 @ [name]\<rparr>"
      have vt: "visit (Suc n) reg name t = Some (Inr ?t')"
        using nvt f t1 by simp
      have "name \<notin> set (result t)"
        using nvt inv_t by (simp add: dfs_inv_def)
      then have "result ?t' = result t @ filter (\<lambda>y. y \<notin> set (result t)) (new1 @ [name])"
        by (simp add: rt1)
      moreover have "result s' = result s @ (new1 @ [name])"
        by (simp add: s' r1)
      ultimately show ?thesis
        using vt by blast
    qed
  qed
next
  case (3 n reg s)
  then show ?case by simp
next
  case (4 n reg dep deps s)
  note inv_s = "4.prems"(2) and inv_t = "4.prems"(3) and sub = "4.prems"(4)
  from "4.prems"(1) obtain s1 where s1: "visit n reg dep s = Some (Inr s1)"
    and rest: "visit_each n reg deps s1 = Some (Inr s')"
    by (auto split: option.splits sum.splits)
  from "4.IH"(1) [OF s1 inv_s inv_t sub] obtain t1 new1
    where r1: "result s1 = result s @ new1"
      and t1: "visit n reg dep t = Some (Inr t1)"
      and rt1: "result t1 = result t @ filter (\<lambda>y. y \<notin> set (result t)) new1"
    by blast
  from visit_inv(1) [OF s1 inv_s] have inv_s1: "dfs_inv reg s1" by blast
  from visit_inv(1) [OF t1 inv_t] have inv_t1: "dfs_inv reg t1" by blast
  have sub1: "set (result s1) \<subseteq> set (result t1)"
    using sub by (auto simp: r1 rt1)
  from "4.IH"(2) [OF s1 refl rest inv_s1 inv_t1 sub1] obtain t' new2
    where r2: "result s' = result s1 @ new2"
      and t': "visit_each n reg deps t1 = Some (Inr t')"
      and rt': "result t' = result t1 @ filter (\<lambda>y. y \<notin> set (result t1)) new2"
    by blast
  from visit_inv(2) [OF rest inv_s1] have "distinct (result s')"
    by (simp add: dfs_inv_def)
  then have disj: "set new1 \<inter> set new2 = {}"
    by (auto simp: r2 r1)
  have "filter (\<lambda>y. y \<notin> set (result t1)) new2 = filter (\<lambda>y. y \<notin> set (result t)) new2"
    by (rule filter_cong) (use disj in \<open>auto simp: rt1\<close>)
  then have "result t' = result t @ filter (\<lambda>y. y \<notin> set (result t)) (new1 @ new2)"
    by (simp add: rt' rt1)
  moreover have "result s' = result s @ (new1 @ new2)"
    by (simp add: r2 r1)
  moreover have "visit_each n reg (dep # deps) t = Some (Inr t')"
    using t1 t' by simp
  ultimately show ?case by blast
qed

lemma resolve_append:
  assumes xs: "resolveDependencies n reg xs = Some (Inr o1)"
    and ys: "resolveDependencies n reg ys = Some (Inr o2)"
  shows "resolveDependencies n reg (xs @ ys) = Some (Inr (o1 @ filter (\<lambda>y. y \<notin> set o1) o2))"
proof -
  let ?init = "\<lparr>visited = Map.empty, result = []\<rparr>"
  from xs obtain t where t: "visit_each n reg xs ?init = Some (Inr t)" and o1: "o1 = result t"
    by (auto simp: resolveDependencies_def split: option.splits sum.splits)
  from ys obtain s' where s': "visit_each n reg ys ?init = Some (Inr s')" and o2: "o2 = result s'"
    by (auto simp: resolveDependencies_def split: option.splits sum.splits)
  from visit_inv(2) [OF t dfs_inv_init] have inv_t: "dfs_inv reg t" by blast
  from visit_more_visited(2) [OF s' dfs_inv_init inv_t] obtain t'
    where "visit_each n reg ys t = Some (Inr t')"
      and "result t' = result t @ filter (\<lambda>y. y \<notin> set (result t)) (result s')"
    by auto
  then show ?thesis
    using t by (simp add: resolveDependencies_def visit_each_append o1 o2)
qed

lemma resolve_single:
  assumes "map_of reg a = Some f" and "resolveDependencies n reg (Deps f) = Some (Inr ord)"
  shows "resolveDependencies (Suc n) reg [a] = Some (Inr (ord @ [a]))"
  using assms
  by (auto simp: resolveDependencies_def split: option.splits sum.splits)

text \<open>Concrete runs.\<close>

lemma diamond_run:
  "resolveDependencies 4 registry_diamond [''top'', ''left''] =
     Some (Inr [''base'', ''left'', ''right'', ''top''])"
  by code_simp

lemma cyclic_reaches: "reaches_cycle registry_cyclic ''a''"
proof -
  have ab: "(''a'', ''b'') \<in> dep_edges registry_cyclic"
    by (simp add: dep_edges_def registry_cyclic_def plain_module_def)
  have ba: "(''b'', ''a'') \<in> dep_edges registry_cyclic"
    by (simp add: dep_edges_def registry_cyclic_def plain_module_def)
  from ab ba have "(''a'', ''a'') \<in> (dep_edges registry_cyclic)\<^sup>+"
    by (meson trancl.r_into_trancl trancl_trans)
  then show ?thesis
    unfolding reaches_cycle_def by blast
qed

lemma cyclic_registered: "dep_closure registry_cyclic (set [''a'']) \<subseteq> fst ` set registry_cyclic"
proof -
  have "(x, y) \<in> (dep_edges registry_cyclic)\<^sup>* \<Longrightarrow> x \<in> {''a'', ''b''} \<Longrightarrow> y \<in> {''a'', ''b''}" for x y
    by (induction rule: rtrancl_induct)
       (auto simp: dep_edges_def registry_cyclic_def plain_module_def split: if_splits)
  then show ?thesis
    by (auto simp: dep_closure_def registry_cyclic_def)
qed

lemma modules_run:
  "resolveDependencies 3 registry_Modules [''user'', ''order'', ''auth''] =
     Some (Inr [''user'', ''auth'', ''order''])"
  by code_simp

lemma modules_run_user:
  "resolveDependencies 3 registry_Modules [''user''] = Some (Inr [''user''])"
  by code_simp


section \<open>Claims about the dependency resolution\<close>

text \<open>
  Claim C5. For every requested list of names such that every name reachable from it
  through declared dependencies is registered and no cycle is reachable from it,
  \<^verbatim>\<open>resolveDependencies\<close> returns an order (for every sufficiently large bound on the
  nesting of \<^verbatim>\<open>visit\<close>, the same order) in which no name occurs twice, whose names are
  exactly the requested names and their transitive dependencies (so a dependency shared
  by two requested units occurs once), and in which every transitive dependency of a
  name stands before that name.
\<close>

theorem resolve_acyclic_order:
  assumes "dep_closure reg (set modNames) \<subseteq> fst ` set reg"
    and "\<forall>a\<in>set modNames. \<not> reaches_cycle reg a"
  shows "\<exists>n order.
           (\<forall>m\<ge>n. resolveDependencies m reg modNames = Some (Inr order)) \<and>
           distinct order \<and>
           set order = dep_closure reg (set modNames) \<and>
           (\<forall>i<length order. \<forall>d. (order ! i, d) \<in> (dep_edges reg)\<^sup>+ \<longrightarrow> d \<in> set (take i order))"
proof -
  from resolve_returns [OF assms] obtain n order
    where r: "resolveDependencies n reg modNames = Some (Inr order)"
    by blast
  from resolve_sound [OF r] have d: "distinct order" and db: "deps_before reg order"
    and cl: "set order = dep_closure reg (set modNames)"
    by blast+
  have "\<forall>m\<ge>n. resolveDependencies m reg modNames = Some (Inr order)"
    using resolve_mono [OF r] by blast
  moreover have "\<forall>i<length order. \<forall>d. (order ! i, d) \<in> (dep_edges reg)\<^sup>+ \<longrightarrow> d \<in> set (take i order)"
    using deps_before_trancl [OF db] by blast
  ultimately show ?thesis
    using d cl by blast
qed

text \<open>The claim on a diamond: \<^verbatim>\<open>top\<close> depends on \<^verbatim>\<open>left\<close> and \<^verbatim>\<open>right\<close>, which
  both depend on \<^verbatim>\<open>base\<close>.\<close>

theorem resolve_acyclic_order_witness:
  "dep_closure registry_diamond (set [''top'', ''left'']) \<subseteq> fst ` set registry_diamond \<and>
   \<not> reaches_cycle registry_diamond ''top'' \<and> \<not> reaches_cycle registry_diamond ''left'' \<and>
   (\<exists>n. resolveDependencies n registry_diamond [''top'', ''left''] =
           Some (Inr [''base'', ''left'', ''right'', ''top''])) \<and>
   dep_closure registry_diamond (set [''top'', ''left'']) = {''base'', ''left'', ''right'', ''top''}"
proof -
  note h = resolve_hyps [OF diamond_run]
  from resolve_acyclic_order [OF h] obtain n order
    where all: "\<forall>m\<ge>n. resolveDependencies m registry_diamond [''top'', ''left''] = Some (Inr order)"
      and cl: "set order = dep_closure registry_diamond (set [''top'', ''left''])"
    by blast
  from all have "resolveDependencies (max n 4) registry_diamond [''top'', ''left''] = Some (Inr order)"
    by simp
  moreover have "resolveDependencies (max n 4) registry_diamond [''top'', ''left''] =
      Some (Inr [''base'', ''left'', ''right'', ''top''])"
    using resolve_mono [OF diamond_run, of "max n 4"] by simp
  ultimately have "order = [''base'', ''left'', ''right'', ''top'']"
    by simp
  with cl have "dep_closure registry_diamond (set [''top'', ''left'']) = {''base'', ''left'', ''right'', ''top''}"
    by auto
  with h diamond_run show ?thesis
    by auto
qed

text \<open>
  Claim C3, as the code has it. \<^verbatim>\<open>resolveDependencies\<close> keeps no record of the names
  on the recursion stack and has no error for a cycle. When a cycle is reachable from
  the requested names, no call returns an order; a call either returns the error
  \<^verbatim>\<open>unknown module\<close> for an unregistered name reachable from the request or does not
  return, and when every reachable name is registered it does not return, whatever
  the bound on the nesting.
\<close>

theorem resolve_cyclic:
  assumes "\<exists>a\<in>set modNames. reaches_cycle reg a"
  shows "(case resolveDependencies n reg modNames of
            None \<Rightarrow> True
          | Some (Inl e) \<Rightarrow>
              (\<exists>x. e = UnknownModule x \<and> x \<in> dep_closure reg (set modNames) \<and> map_of reg x = None)
          | Some (Inr order) \<Rightarrow> False) \<and>
         (dep_closure reg (set modNames) \<subseteq> fst ` set reg \<longrightarrow>
            resolveDependencies n reg modNames = None)"
proof -
  have no_order: "resolveDependencies n reg modNames \<noteq> Some (Inr order)" for order
    using resolve_hyps(2) [of n reg modNames order] assms by blast
  have err: "\<exists>x. e = UnknownModule x \<and> x \<in> dep_closure reg (set modNames) \<and> map_of reg x = None"
    if "resolveDependencies n reg modNames = Some (Inl e)" for e
    using resolve_error [OF that] .
  have "resolveDependencies n reg modNames = None"
    if sub: "dep_closure reg (set modNames) \<subseteq> fst ` set reg"
  proof (cases "resolveDependencies n reg modNames")
    case None
    then show ?thesis .
  next
    case (Some r)
    show ?thesis
    proof (cases r)
      case (Inl e)
      from err [OF Some [unfolded Inl]] obtain x
        where "x \<in> dep_closure reg (set modNames)" and "map_of reg x = None"
        by blast
      with sub show ?thesis
        by (metis domIff dom_map_of_conv_image_fst subsetD)
    next
      case (Inr order)
      with Some no_order show ?thesis by blast
    qed
  qed
  with no_order err show ?thesis
    by (auto split: option.splits sum.splits)
qed

text \<open>Two modules that depend on each other.\<close>

theorem resolve_cyclic_witness:
  "(\<exists>a\<in>set [''a'']. reaches_cycle registry_cyclic a) \<and>
   dep_closure registry_cyclic (set [''a'']) \<subseteq> fst ` set registry_cyclic \<and>
   resolveDependencies 7 registry_cyclic [''a''] = None"
proof -
  have h: "\<exists>a\<in>set [''a'']. reaches_cycle registry_cyclic a"
    using cyclic_reaches by simp
  from resolve_cyclic [OF h, of 7] cyclic_registered h show ?thesis
    by blast
qed

text \<open>Claim C3 as stated fails: for the two modules that depend on each other the
  resolution returns nothing, neither an error that names the cycle nor any other
  result, within any bound.\<close>

theorem resolve_cyclic_counterexample:
  "reaches_cycle registry_cyclic ''a'' \<and>
   (\<forall>n. resolveDependencies n registry_cyclic [''a''] = None)"
proof -
  have "resolveDependencies n registry_cyclic [''a''] \<noteq> Some r" for n r
  proof (cases r)
    case (Inl e)
    from resolve_error [of n registry_cyclic "[''a'']" e] cyclic_registered
    show ?thesis unfolding Inl
      by (metis domIff dom_map_of_conv_image_fst subsetD)
  next
    case (Inr order)
    from resolve_hyps(2) [of n registry_cyclic "[''a'']" order] cyclic_reaches
    show ?thesis unfolding Inr by auto
  qed
  then have "\<forall>n. resolveDependencies n registry_cyclic [''a''] = None"
    by (meson option.exhaust)
  with cyclic_reaches show ?thesis by blast
qed

text \<open>
  Claim C8. For every requested list of registered names with an acyclic dependency
  graph, the resolved order is a function of the list and the dependency declarations:
  every call that returns, returns this order, and a registry with the same names and
  the same \<^verbatim>\<open>Deps\<close> gives the same result. In the order every name stands after its
  dependencies. A requested name that is not among the earlier requested names and
  their transitive dependencies stands right after exactly these names and its own
  transitive dependencies: the requested names that are not yet covered keep their
  input order, whatever their spelling. The order is the order of first discovery: for
  a list of names followed by further names it is the order for the list, followed by
  the order for the further names without the names already there; and for a single
  registered unit it is the order for its declared dependency list, followed by the
  unit.
\<close>

theorem resolve_deterministic_order:
  assumes "dep_closure reg (set modNames) \<subseteq> fst ` set reg"
    and "\<forall>a\<in>set modNames. \<not> reaches_cycle reg a"
  shows "\<exists>order.
           (\<exists>n. \<forall>m\<ge>n. resolveDependencies m reg modNames = Some (Inr order)) \<and>
           (\<forall>n r. resolveDependencies n reg modNames = Some r \<longrightarrow> r = Inr order) \<and>
           (\<forall>reg'. (\<forall>x. map_option Deps (map_of reg' x) = map_option Deps (map_of reg x)) \<longrightarrow>
              (\<forall>n. resolveDependencies n reg' modNames = resolveDependencies n reg modNames)) \<and>
           deps_before reg order \<and>
           (\<forall>j<length modNames.
              modNames ! j \<notin> dep_closure reg (set (take j modNames)) \<longrightarrow>
              (\<exists>pre post. order = pre @ modNames ! j # post \<and>
                 set pre = dep_closure reg (set (take (Suc j) modNames)) - {modNames ! j})) \<and>
           (\<forall>n xs ys o1 o2.
              resolveDependencies n reg xs = Some (Inr o1) \<and>
              resolveDependencies n reg ys = Some (Inr o2) \<longrightarrow>
              resolveDependencies n reg (xs @ ys) =
                Some (Inr (o1 @ filter (\<lambda>y. y \<notin> set o1) o2))) \<and>
           (\<forall>n a f o1.
              map_of reg a = Some f \<and> resolveDependencies n reg (Deps f) = Some (Inr o1) \<longrightarrow>
              resolveDependencies (Suc n) reg [a] = Some (Inr (o1 @ [a])))"
proof -
  from resolve_returns [OF assms] obtain n order
    where r: "resolveDependencies n reg modNames = Some (Inr order)"
    by blast
  have later: "\<forall>m\<ge>n. resolveDependencies m reg modNames = Some (Inr order)"
    using resolve_mono [OF r] by blast
  have unique: "r' = Inr order" if "resolveDependencies k reg modNames = Some r'" for k r'
  proof -
    have "resolveDependencies (max k n) reg modNames = Some r'"
      using resolve_mono [OF that, of "max k n"] by simp
    moreover have "resolveDependencies (max k n) reg modNames = Some (Inr order)"
      using later by simp
    ultimately show ?thesis by simp
  qed
  have deps: "resolveDependencies k reg' modNames = resolveDependencies k reg modNames"
    if "\<forall>x. map_option Deps (map_of reg' x) = map_option Deps (map_of reg x)" for reg' k
    using visit_deps_only(2) [of reg' reg k modNames] that
    by (simp add: resolveDependencies_def)
  have ex: "\<exists>n. \<forall>m\<ge>n. resolveDependencies m reg modNames = Some (Inr order)"
    using later by blast
  have unique': "\<forall>n r. resolveDependencies n reg modNames = Some r \<longrightarrow> r = Inr order"
    using unique by blast
  have deps': "\<forall>reg'. (\<forall>x. map_option Deps (map_of reg' x) = map_option Deps (map_of reg x)) \<longrightarrow>
      (\<forall>n. resolveDependencies n reg' modNames = resolveDependencies n reg modNames)"
    using deps by blast
  have db: "deps_before reg order"
    using resolve_sound [OF r] by blast
  have pos: "\<forall>j<length modNames.
      modNames ! j \<notin> dep_closure reg (set (take j modNames)) \<longrightarrow>
      (\<exists>pre post. order = pre @ modNames ! j # post \<and>
         set pre = dep_closure reg (set (take (Suc j) modNames)) - {modNames ! j})"
    using resolve_requested_position [OF r] by blast
  have app: "\<forall>n xs ys o1 o2.
      resolveDependencies n reg xs = Some (Inr o1) \<and>
      resolveDependencies n reg ys = Some (Inr o2) \<longrightarrow>
      resolveDependencies n reg (xs @ ys) = Some (Inr (o1 @ filter (\<lambda>y. y \<notin> set o1) o2))"
    using resolve_append by blast
  have single: "\<forall>n a f o1.
      map_of reg a = Some f \<and> resolveDependencies n reg (Deps f) = Some (Inr o1) \<longrightarrow>
      resolveDependencies (Suc n) reg [a] = Some (Inr (o1 @ [a]))"
    using resolve_single by blast
  from ex unique' deps' db pos app single show ?thesis
    by (intro exI [where x = order] conjI)
qed

text \<open>The claim for the request \<^verbatim>\<open>user, order, auth\<close> on the repository's registry:
  \<^verbatim>\<open>user\<close> stays in front of \<^verbatim>\<open>auth\<close>, and \<^verbatim>\<open>order\<close> stands after
  \<^verbatim>\<open>user\<close> and its dependency \<^verbatim>\<open>auth\<close>.\<close>

theorem resolve_deterministic_order_witness:
  "dep_closure registry_Modules (set [''user'', ''order'', ''auth'']) \<subseteq> fst ` set registry_Modules \<and>
   \<not> reaches_cycle registry_Modules ''user'' \<and>
   \<not> reaches_cycle registry_Modules ''order'' \<and>
   \<not> reaches_cycle registry_Modules ''auth'' \<and>
   ''order'' \<notin> dep_closure registry_Modules (set [''user'']) \<and>
   (\<exists>n. resolveDependencies n registry_Modules [''user'', ''order'', ''auth''] =
          Some (Inr [''user'', ''auth'', ''order''])) \<and>
   deps_before registry_Modules [''user'', ''auth'', ''order''] \<and>
   (\<exists>pre post. [''user'', ''auth'', ''order''] = pre @ ''order'' # post \<and>
      set pre = dep_closure registry_Modules (set [''user'', ''order'']) - {''order''})"
proof -
  define names where "names = [''user'', ''order'', ''auth'']"
  define reg where "reg = registry_Modules"
  have run: "resolveDependencies 3 reg names = Some (Inr [''user'', ''auth'', ''order''])"
    unfolding names_def reg_def by (rule modules_run)
  note h = resolve_hyps [OF run]
  have cl_user: "dep_closure reg (set [''user'']) = set [''user'']"
    using resolve_sound [OF modules_run_user] unfolding reg_def by blast
  have fresh0: "''order'' \<notin> dep_closure reg (set [''user''])"
    unfolding cl_user by simp
  have n1: "names ! 1 = ''order''" "take 1 names = [''user'']" "take (Suc 1) names = [''user'', ''order'']"
    by (simp_all add: names_def)
  have fresh: "names ! 1 \<notin> dep_closure reg (set (take 1 names))"
    unfolding n1 by (rule fresh0)
  from resolve_deterministic_order [OF h] obtain order
    where all: "(\<exists>n. \<forall>m\<ge>n. resolveDependencies m reg names = Some (Inr order)) \<and>
           (\<forall>n r. resolveDependencies n reg names = Some r \<longrightarrow> r = Inr order) \<and>
           (\<forall>reg'. (\<forall>x. map_option Deps (map_of reg' x) = map_option Deps (map_of reg x)) \<longrightarrow>
              (\<forall>n. resolveDependencies n reg' names = resolveDependencies n reg names)) \<and>
           deps_before reg order \<and>
           (\<forall>j<length names.
              names ! j \<notin> dep_closure reg (set (take j names)) \<longrightarrow>
              (\<exists>pre post. order = pre @ names ! j # post \<and>
                 set pre = dep_closure reg (set (take (Suc j) names)) - {names ! j})) \<and>
           (\<forall>n xs ys o1 o2.
              resolveDependencies n reg xs = Some (Inr o1) \<and>
              resolveDependencies n reg ys = Some (Inr o2) \<longrightarrow>
              resolveDependencies n reg (xs @ ys) =
                Some (Inr (o1 @ filter (\<lambda>y. y \<notin> set o1) o2))) \<and>
           (\<forall>n a f o1.
              map_of reg a = Some f \<and> resolveDependencies n reg (Deps f) = Some (Inr o1) \<longrightarrow>
              resolveDependencies (Suc n) reg [a] = Some (Inr (o1 @ [a])))" ..
  note unique = all [THEN conjunct2, THEN conjunct1]
  note db = all [THEN conjunct2, THEN conjunct2, THEN conjunct2, THEN conjunct1]
  note pos = all [THEN conjunct2, THEN conjunct2, THEN conjunct2, THEN conjunct2, THEN conjunct1]
  from unique [rule_format, OF run] have order: "order = [''user'', ''auth'', ''order'']"
    by simp
  have "1 < length names" by (simp add: names_def)
  from pos [rule_format, OF this fresh]
  have p: "\<exists>pre post. order = pre @ ''order'' # post \<and>
      set pre = dep_closure reg (set [''user'', ''order'']) - {''order''}"
    unfolding n1 .
  have c: "\<not> reaches_cycle reg ''user''" "\<not> reaches_cycle reg ''order''"
    "\<not> reaches_cycle reg ''auth''"
    using h(2) by (simp_all add: names_def)
  have r: "\<exists>n. resolveDependencies n reg names = Some (Inr [''user'', ''auth'', ''order''])"
    by (rule exI [where x = 3]) (rule run)
  from h(1) c fresh0 r db p show ?thesis
    unfolding order names_def reg_def by (intro conjI)
qed

section \<open>Properties of the module manager\<close>

text \<open>The first loop of \<^verbatim>\<open>Update\<close>: what it stores under a name, which routes it
  registers, and which events it adds.\<close>

lemma start_module_other:
  "x \<noteq> name \<Longrightarrow> newActive (start_module reg cfg old x u) name = newActive u name"
  by (auto simp: start_module_def Let_def split: option.splits)

lemma start_modules_other:
  "name \<notin> set names \<Longrightarrow> newActive (start_modules reg cfg old names u) name = newActive u name"
  by (induction names arbitrary: u) (auto simp: start_module_other)

lemma start_module_kept:
  "old name = Some m \<Longrightarrow> newActive (start_module reg cfg old name u) name = Some m"
  by (simp add: start_module_def)

lemma start_modules_kept:
  "name \<in> set names \<Longrightarrow> old name = Some m \<Longrightarrow>
     newActive (start_modules reg cfg old names u) name = Some m"
proof (induction names arbitrary: u)
  case Nil
  then show ?case by simp
next
  case (Cons x rest)
  show ?case
  proof (cases "name \<in> set rest")
    case True
    with Cons show ?thesis by simp
  next
    case False
    with Cons.prems have "x = name" by simp
    with False Cons.prems(2) show ?thesis
      by (simp add: start_modules_other start_module_kept)
  qed
qed

lemma start_module_failed:
  "init_fails reg cfg old name \<Longrightarrow> newActive (start_module reg cfg old x u) name = newActive u name"
  by (cases "x = name")
     (auto simp: start_module_other start_module_def init_fails_def Let_def split: option.splits)

lemma start_modules_failed:
  "init_fails reg cfg old name \<Longrightarrow>
     newActive (start_modules reg cfg old names u) name = newActive u name"
  by (induction names arbitrary: u) (auto simp: start_module_failed)

lemma start_module_started:
  assumes "\<not> init_fails reg cfg old name" and "map_of reg name = Some f"
  shows "\<exists>m. newActive (start_module reg cfg old name u) name = Some m"
  using assms
  by (auto simp: start_module_def init_fails_def Let_def split: option.splits)

lemma start_modules_started:
  assumes "name \<in> set names" and "\<not> init_fails reg cfg old name" and "map_of reg name = Some f"
  shows "\<exists>m. newActive (start_modules reg cfg old names u) name = Some m"
  using assms(1)
proof (induction names arbitrary: u)
  case Nil
  then show ?case by simp
next
  case (Cons x rest)
  show ?case
  proof (cases "name \<in> set rest")
    case True
    with Cons show ?thesis by simp
  next
    case False
    with Cons.prems have "x = name" by simp
    with False start_module_started [OF assms(2,3), of u] show ?thesis
      by (simp add: start_modules_other)
  qed
qed

lemma start_module_dom:
  "newActive (start_module reg cfg old x u) name = Some m \<Longrightarrow>
     newActive u name = Some m \<or> x = name"
  by (cases "x = name") (auto simp: start_module_other)

lemma start_modules_dom:
  "newActive (start_modules reg cfg old names u) name = Some m \<Longrightarrow>
     newActive u name = Some m \<or> name \<in> set names"
  by (induction names arbitrary: u) (auto dest: start_module_dom)

lemma start_module_events:
  "\<exists>evs. out (start_module reg cfg old name u) = out u @ evs \<and>
     (\<forall>e\<in>set evs. \<not> is_ShutdownCall e) \<and>
     (\<forall>e\<in>set evs. \<forall>nm. init_called e = Some nm \<longrightarrow> nm = name \<and> old nm = None) \<and>
     filter is_init_failure evs =
       (if init_fails reg cfg old name then [init_failure_line reg cfg name] else [])"
  by (auto simp: start_module_def init_fails_def init_failure_line_def Let_def split: option.splits)

lemma start_modules_events:
  "\<exists>evs. out (start_modules reg cfg old names u) = out u @ evs \<and>
     (\<forall>e\<in>set evs. \<not> is_ShutdownCall e) \<and>
     (\<forall>e\<in>set evs. \<forall>nm. init_called e = Some nm \<longrightarrow> nm \<in> set names \<and> old nm = None) \<and>
     filter is_init_failure evs =
       map (init_failure_line reg cfg) (filter (init_fails reg cfg old) names)"
proof (induction names arbitrary: u)
  case Nil
  then show ?case by simp
next
  case (Cons x rest)
  from start_module_events [of reg cfg old x u] obtain e1
    where o1: "out (start_module reg cfg old x u) = out u @ e1"
      and s1: "\<forall>e\<in>set e1. \<not> is_ShutdownCall e"
      and i1: "\<forall>e\<in>set e1. \<forall>nm. init_called e = Some nm \<longrightarrow> nm = x \<and> old nm = None"
      and f1: "filter is_init_failure e1 =
         (if init_fails reg cfg old x then [init_failure_line reg cfg x] else [])"
    by blast
  from Cons.IH [of "start_module reg cfg old x u"] obtain e2
    where o2: "out (start_modules reg cfg old rest (start_module reg cfg old x u)) =
         out (start_module reg cfg old x u) @ e2"
      and s2: "\<forall>e\<in>set e2. \<not> is_ShutdownCall e"
      and i2: "\<forall>e\<in>set e2. \<forall>nm. init_called e = Some nm \<longrightarrow> nm \<in> set rest \<and> old nm = None"
      and f2: "filter is_init_failure e2 =
         map (init_failure_line reg cfg) (filter (init_fails reg cfg old) rest)"
    by blast
  have "out (start_modules reg cfg old (x # rest) u) = out u @ (e1 @ e2)"
    by (simp add: o1 o2)
  moreover have "\<forall>e\<in>set (e1 @ e2). \<not> is_ShutdownCall e"
    using s1 s2 by auto
  moreover have "\<forall>e\<in>set (e1 @ e2). \<forall>nm. init_called e = Some nm \<longrightarrow> nm \<in> set (x # rest) \<and> old nm = None"
    using i1 i2 by auto
  moreover have "filter is_init_failure (e1 @ e2) =
      map (init_failure_line reg cfg) (filter (init_fails reg cfg old) (x # rest))"
    by (simp add: f1 f2)
  ultimately show ?case by blast
qed

text \<open>The engine after the first loop, and the instance it makes for a name that was not
  active: a new identity, the registered factory, the name's configuration.\<close>

lemma start_module_alloc: "alloc u \<le> alloc (start_module reg cfg old name u)"
  by (auto simp: start_module_def Let_def split: option.splits)

lemma start_modules_alloc: "alloc u \<le> alloc (start_modules reg cfg old names u)"
proof (induction names arbitrary: u)
  case Nil
  then show ?case by simp
next
  case (Cons x rest)
  from start_module_alloc [of u reg cfg old x] Cons [of "start_module reg cfg old x u"]
  show ?case by simp
qed

lemma start_module_engine:
  "engine (start_module reg cfg old name u) = engine u @ routes_for reg cfg old name"
  by (auto simp: start_module_def routes_for_def Let_def split: option.splits)

lemma start_modules_engine:
  "engine (start_modules reg cfg old names u) =
     engine u @ concat (map (routes_for reg cfg old) names)"
  by (induction names arbitrary: u) (simp_all add: start_module_engine)

lemma start_module_new:
  assumes "old name = None" and "map_of reg name = Some f" and "Init f (config_of cfg name) = None"
  shows "newActive (start_module reg cfg old name u) name =
           Some \<lparr>ident = alloc u, impl = f, init_cfg = config_of cfg name\<rparr>"
    and "alloc (start_module reg cfg old name u) = Suc (alloc u)"
  using assms by (simp_all add: start_module_def Let_def)

lemma start_modules_new:
  assumes "old name = None" and "map_of reg name = Some f" and "Init f (config_of cfg name) = None"
  shows "name \<in> set names \<Longrightarrow>
     \<exists>i. alloc u \<le> i \<and> i < alloc (start_modules reg cfg old names u) \<and>
       newActive (start_modules reg cfg old names u) name =
         Some \<lparr>ident = i, impl = f, init_cfg = config_of cfg name\<rparr>"
proof (induction names arbitrary: u)
  case Nil
  then show ?case by simp
next
  case (Cons x rest)
  let ?u = "start_module reg cfg old x u"
  show ?case
  proof (cases "name \<in> set rest")
    case True
    from Cons.IH [OF True, of ?u] obtain i where "alloc ?u \<le> i"
      and "i < alloc (start_modules reg cfg old rest ?u)"
      and "newActive (start_modules reg cfg old rest ?u) name =
         Some \<lparr>ident = i, impl = f, init_cfg = config_of cfg name\<rparr>"
      by blast
    moreover have "alloc u \<le> alloc ?u" by (rule start_module_alloc)
    ultimately show ?thesis
      by (metis le_trans start_modules.simps(2))
  next
    case False
    with Cons.prems have x: "x = name" by simp
    have "newActive (start_modules reg cfg old rest ?u) name =
        Some \<lparr>ident = alloc u, impl = f, init_cfg = config_of cfg name\<rparr>"
      using False start_module_new(1) [where old = old and name = name and reg = reg and f = f
          and cfg = cfg and u = u] assms
      by (simp add: start_modules_other x)
    moreover have "alloc u < alloc (start_modules reg cfg old rest ?u)"
      using start_modules_alloc [of ?u reg cfg old rest]
        start_module_new(2) [where old = old and name = name and reg = reg and f = f
          and cfg = cfg and u = u] assms
      by (simp add: x)
    ultimately show ?thesis
      by (metis le_refl start_modules.simps(2))
  qed
qed

lemma routes_for_failed:
  "init_fails reg cfg old name \<Longrightarrow> routes_for reg cfg old name = []"
  by (auto simp: init_fails_def routes_for_def split: option.splits)

text \<open>The second loop visits only names of the resolved order, and each of them that was
  active has been kept by the first loop: it calls nothing.\<close>

lemma stop_modules_nothing:
  "(\<forall>name\<in>set names. old name \<noteq> None \<longrightarrow> new name \<noteq> None) \<Longrightarrow>
     stop_modules old new names tr = tr"
  by (induction names arbitrary: tr) (auto split: option.splits)

lemma stop_after_start:
  "stop_modules old (newActive (start_modules reg cfg old ordered u)) (rev ordered) tr = tr"
  by (rule stop_modules_nothing) (auto simp: start_modules_kept)

text \<open>\<^verbatim>\<open>Update\<close> in its two returning cases.\<close>

lemma Update_resolved:
  assumes "resolveDependencies n reg (Modules cfg) = Some (Inr ordered)"
  shows "Update n reg cfg w =
     Some (engine (after_start reg cfg w ordered),
           w\<lparr>manager := (manager w)\<lparr>active := newActive (after_start reg cfg w ordered)\<rparr>,
             next_ident := alloc (after_start reg cfg w ordered),
             trace := out (after_start reg cfg w ordered)\<rparr>)"
  using assms by (simp add: Update_def Let_def after_start_def stop_after_start)

lemma Update_failed:
  assumes "resolveDependencies n reg (Modules cfg) = Some (Inl err)"
  shows "Update n reg cfg w =
     Some (gin_Default, w\<lparr>trace := trace w @ [Println [''Dependency resolution error:'', Error err]]\<rparr>)"
  using assms by (simp add: Update_def)

lemma Update_cases:
  assumes "Update n reg cfg w = Some (r', w')"
  obtains (failed) err where "resolveDependencies n reg (Modules cfg) = Some (Inl err)"
  | (resolved) ordered where "resolveDependencies n reg (Modules cfg) = Some (Inr ordered)"
  using assms by (auto simp: Update_def split: option.splits sum.splits)

lemma after_start_events:
  "\<exists>evs. out (after_start reg cfg w ordered) = trace w @ evs \<and>
     (\<forall>e\<in>set evs. \<not> is_ShutdownCall e) \<and>
     (\<forall>e\<in>set evs. \<forall>nm. init_called e = Some nm \<longrightarrow> nm \<in> set ordered \<and> active (manager w) nm = None) \<and>
     filter is_init_failure evs =
       map (init_failure_line reg cfg) (filter (init_fails reg cfg (active (manager w))) ordered)"
  using start_modules_events [of reg cfg "active (manager w)" ordered
      "\<lparr>newActive = Map.empty, engine = gin_Default, alloc = next_ident w, out = trace w\<rparr>"]
  by (simp add: after_start_def)

lemma after_start_active:
  "newActive (after_start reg cfg w ordered) name = Some m \<Longrightarrow> name \<in> set ordered"
  unfolding after_start_def by (auto dest: start_modules_dom)

lemma after_start_engine:
  "engine (after_start reg cfg w ordered) =
     concat (map (routes_for reg cfg (active (manager w))) ordered)"
  by (simp add: after_start_def start_modules_engine gin_Default_def)

lemma after_start_outside:
  "name \<notin> set ordered \<Longrightarrow> newActive (after_start reg cfg w ordered) name = None"
  by (simp add: after_start_def start_modules_other)

lemma after_start_new:
  assumes "name \<in> set ordered" and "active (manager w) name = None"
    and "map_of reg name = Some f" and "Init f (config_of cfg name) = None"
  shows "\<exists>i. next_ident w \<le> i \<and> i < alloc (after_start reg cfg w ordered) \<and>
       newActive (after_start reg cfg w ordered) name =
         Some \<lparr>ident = i, impl = f, init_cfg = config_of cfg name\<rparr>"
  using start_modules_new [where old = "active (manager w)" and name = name and reg = reg
      and f = f and cfg = cfg and names = ordered
      and u = "\<lparr>newActive = Map.empty, engine = gin_Default, alloc = next_ident w, out = trace w\<rparr>"]
    assms
  by (simp add: after_start_def)

text \<open>No reconciliation calls \<^verbatim>\<open>Shutdown\<close>.\<close>

lemma Update_never_Shutdown:
  assumes "Update n reg cfg w = Some (r', w')"
  shows "filter is_ShutdownCall (events_since w w') = []"
  using assms
proof (cases rule: Update_cases)
  case (failed err)
  from assms show ?thesis
    unfolding Update_failed [OF failed] by (auto simp: events_since_def)
next
  case (resolved ordered)
  from after_start_events [of reg cfg w ordered] obtain evs
    where "out (after_start reg cfg w ordered) = trace w @ evs"
      and "\<forall>e\<in>set evs. \<not> is_ShutdownCall e"
    by blast
  with assms show ?thesis
    unfolding Update_resolved [OF resolved]
    by (auto simp: events_since_def filter_empty_conv)
qed

lemma resolved_registered:
  assumes "resolveDependencies n reg modNames = Some (Inr ordered)" and "name \<in> set ordered"
  shows "\<exists>f. map_of reg name = Some f"
proof -
  from resolve_sound [OF assms(1)] have "deps_before reg ordered" by blast
  moreover from assms(2) obtain i where "i < length ordered" "ordered ! i = name"
    by (auto simp: in_set_conv_nth)
  ultimately show ?thesis
    unfolding deps_before_def by blast
qed

text \<open>Concrete runs.\<close>

lemma run_order: "resolveDependencies 2 registry_Modules [''order''] = Some (Inr [''auth'', ''order''])"
  by code_simp

lemma run_none: "resolveDependencies 2 registry_Modules [] = Some (Inr [])"
  by code_simp

lemma run_unknown:
  "resolveDependencies 2 registry_Modules [''payments''] = Some (Inl (UnknownModule ''payments''))"
  by code_simp

lemma run_db: "resolveDependencies 2 registry_with_failing [''db'', ''user''] = Some (Inr [''db'', ''user''])"
  by code_simp

lemma run_user: "resolveDependencies 2 registry_Modules [''user''] = Some (Inr [''user''])"
  by code_simp

lemma world_auth_order_reached:
  "rebuildRouter 2 registry_Modules cfg_order world0 = Some world_auth_order"
proof -
  have r: "resolveDependencies 2 registry_Modules (Modules cfg_order) = Some (Inr [''auth'', ''order''])"
    by (simp add: cfg_order_def run_order)
  show ?thesis
    unfolding rebuildRouter_def Update_resolved [OF r]
    by (simp add: after_start_def cfg_order_def world0_def world_auth_order_def
        start_module_def config_of_def registry_Modules_def AuthModule_def OrderModule_def
        gin_Default_def Let_def)
qed

lemma after_start_kept:
  "name \<in> set ordered \<Longrightarrow> active (manager w) name = Some m \<Longrightarrow>
     newActive (after_start reg cfg w ordered) name = Some m"
  unfolding after_start_def by (rule start_modules_kept)

lemma after_start_all_active:
  assumes "resolveDependencies n reg modNames = Some (Inr ordered)"
    and "\<forall>name\<in>set ordered. \<not> init_fails reg cfg (active (manager w)) name"
    and "name \<in> set ordered"
  shows "newActive (after_start reg cfg w ordered) name \<noteq> None"
proof -
  from resolved_registered [OF assms(1,3)] obtain f where f: "map_of reg name = Some f" ..
  from assms(2,3) have "\<not> init_fails reg cfg (active (manager w)) name" by blast
  from start_modules_started [OF assms(3) this f] show ?thesis
    unfolding after_start_def by auto
qed

lemma run_only_db: "resolveDependencies 2 registry_with_failing [''db''] = Some (Inr [''db''])"
  by code_simp

lemma run_none_failing: "resolveDependencies 2 registry_with_failing [] = Some (Inr [])"
  by code_simp

lemmas fixture_defs =
  after_start_def start_module_def config_of_def registry_Modules_def registry_with_failing_def
  UserModule_def AuthModule_def OrderModule_def FailingModule_def gin_Default_def world0_def

lemma Update_hi: "Update 2 registry_Modules cfg_hi world0 = Some ([(''/user'', ''hi'')], world_hi)"
proof -
  have r: "resolveDependencies 2 registry_Modules (Modules cfg_hi) = Some (Inr [''user''])"
    by (simp add: cfg_hi_def run_user)
  show ?thesis
    unfolding Update_resolved [OF r]
    by (simp add: fixture_defs cfg_hi_def world_hi_def Let_def)
qed

lemma Update_bye:
  "Update 2 registry_Modules cfg_bye world_hi =
     Some ([(''/user'', ''hi'')], world_hi\<lparr>trace := trace world_hi @ [RegisterRoutesCall ''user'' 0]\<rparr>)"
proof -
  have r: "resolveDependencies 2 registry_Modules (Modules cfg_bye) = Some (Inr [''user''])"
    by (simp add: cfg_bye_def run_user)
  show ?thesis
    unfolding Update_resolved [OF r]
    by (simp add: fixture_defs cfg_bye_def world_hi_def Let_def)
qed

lemma Update_db:
  "Update 2 registry_with_failing cfg_db world0 = Some ([(''/user'', ''Hello from user (default)'')], world_db)"
proof -
  have r: "resolveDependencies 2 registry_with_failing (Modules cfg_db) = Some (Inr [''db'', ''user''])"
    by (simp add: cfg_db_def run_db)
  show ?thesis
    unfolding Update_resolved [OF r]
    by (simp add: fixture_defs cfg_db_def world_db_def Let_def)
qed

lemma Update_only_db:
  "Update 2 registry_with_failing cfg_only_db world0 =
     Some (gin_Default, world0\<lparr>next_ident := 1,
        trace := [InitCall ''db'' 0, Println [''Failed to init module:'', ''db'', ''connection refused'']]\<rparr>)"
proof -
  have r: "resolveDependencies 2 registry_with_failing (Modules cfg_only_db) = Some (Inr [''db''])"
    by (simp add: cfg_only_db_def run_only_db)
  show ?thesis
    unfolding Update_resolved [OF r]
    by (simp add: fixture_defs cfg_only_db_def Let_def)
qed

lemma Update_none_failing:
  "Update 2 registry_with_failing cfg_none world0 = Some (gin_Default, world0)"
proof -
  have r: "resolveDependencies 2 registry_with_failing (Modules cfg_none) = Some (Inr [])"
    by (simp add: cfg_none_def run_none_failing)
  show ?thesis
    unfolding Update_resolved [OF r]
    by (simp add: fixture_defs cfg_none_def Let_def)
qed

lemma db_fails:
  "init_fails registry_with_failing cfg_db (active (manager world0)) ''db''"
  "\<not> init_fails registry_with_failing cfg_db (active (manager world0)) ''user''"
  by (simp_all add: init_fails_def fixture_defs)


section \<open>Claims about the module manager\<close>

text \<open>
  Claim C1 says that every unit of the old active set that is absent from the newly
  resolved order is shut down, in reverse dependency order. The second loop of
  \<^verbatim>\<open>Update\<close> (commented as stopping the modules that are no longer needed, in reverse
  order) walks the newly resolved order, not the old active set; the units that were
  dropped from the request are never visited. With \<^verbatim>\<open>auth\<close> and \<^verbatim>\<open>order\<close> active
  and an empty request, \<^verbatim>\<open>Update\<close> returns an engine without routes and empties the
  active set, and adds no event to the trace: neither unit has its \<^verbatim>\<open>Shutdown\<close>
  called.
\<close>

theorem Update_drops_without_Shutdown:
  "active (manager world_auth_order) ''auth'' \<noteq> None \<and>
   active (manager world_auth_order) ''order'' \<noteq> None \<and>
   Update 2 registry_Modules cfg_none world_auth_order =
     Some (gin_Default, world_auth_order\<lparr>manager := \<lparr>active = Map.empty\<rparr>\<rparr>) \<and>
   events_since world_auth_order (world_auth_order\<lparr>manager := \<lparr>active = Map.empty\<rparr>\<rparr>) = []"
proof -
  have r: "resolveDependencies 2 registry_Modules (Modules cfg_none) = Some (Inr [])"
    by (simp add: cfg_none_def run_none)
  show ?thesis
    unfolding Update_resolved [OF r]
    by (simp add: after_start_def world_auth_order_def events_since_def)
qed

text \<open>
  Claim C2, as the code has it. When the dependency resolution returns an error, which
  is always the one for an unregistered module, the reconciliation leaves the manager
  with its active set and the allocator as they were, calls neither \<^verbatim>\<open>Init\<close>,
  \<^verbatim>\<open>RegisterRoutes\<close> nor \<^verbatim>\<open>Shutdown\<close> of any module, and prints the error (the
  factories and \<^verbatim>\<open>Deps\<close> that the resolution ran before it failed are not among
  the events); but \<^verbatim>\<open>Update\<close> returns a new engine without routes, and
  \<^verbatim>\<open>rebuildRouter\<close> stores it in \<^verbatim>\<open>router\<close>: afterwards \<^verbatim>\<open>handler\<close> gives readers
  that empty engine, not the engine published before.
\<close>

theorem rebuildRouter_resolution_error:
  assumes "resolveDependencies n reg (Modules cfg) = Some (Inl err)"
  shows "\<exists>w'. rebuildRouter n reg cfg w = Some w' \<and>
     manager w' = manager w \<and> next_ident w' = next_ident w \<and>
     events_since w w' = [Println [''Dependency resolution error:'', Error err]] \<and>
     handler w' = Some gin_Default \<and>
     (\<exists>x. err = UnknownModule x \<and> x \<in> dep_closure reg (set (Modules cfg)) \<and> map_of reg x = None)"
  using resolve_error [OF assms]
  by (simp add: rebuildRouter_def Update_failed [OF assms] handler_def events_since_def)

text \<open>The claim for the request \<^verbatim>\<open>payments\<close>, which the registry does not have, after
  \<^verbatim>\<open>auth\<close> and \<^verbatim>\<open>order\<close> were started.\<close>

theorem rebuildRouter_resolution_error_witness:
  "resolveDependencies 2 registry_Modules (Modules cfg_unknown) = Some (Inl (UnknownModule ''payments'')) \<and>
   (\<exists>w'. rebuildRouter 2 registry_Modules cfg_unknown world_auth_order = Some w' \<and>
      manager w' = manager world_auth_order \<and>
      events_since world_auth_order w' =
        [Println [''Dependency resolution error:'', ''unknown module: payments'']] \<and>
      handler w' = Some gin_Default)"
proof -
  have r: "resolveDependencies 2 registry_Modules (Modules cfg_unknown) = Some (Inl (UnknownModule ''payments''))"
    by (simp add: cfg_unknown_def run_unknown)
  from rebuildRouter_resolution_error [OF r, of world_auth_order] obtain w'
    where "rebuildRouter 2 registry_Modules cfg_unknown world_auth_order = Some w'"
      and "manager w' = manager world_auth_order"
      and "events_since world_auth_order w' =
        [Println [''Dependency resolution error:'', Error (UnknownModule ''payments'')]]"
      and "handler w' = Some gin_Default"
    by blast
  then have "rebuildRouter 2 registry_Modules cfg_unknown world_auth_order = Some w' \<and>
      manager w' = manager world_auth_order \<and>
      events_since world_auth_order w' =
        [Println [''Dependency resolution error:'', ''unknown module: payments'']] \<and>
      handler w' = Some gin_Default"
    by simp
  then have "\<exists>w'. rebuildRouter 2 registry_Modules cfg_unknown world_auth_order = Some w' \<and>
      manager w' = manager world_auth_order \<and>
      events_since world_auth_order w' =
        [Println [''Dependency resolution error:'', ''unknown module: payments'']] \<and>
      handler w' = Some gin_Default"
    by (rule exI [where x = w'])
  with r show ?thesis
    by (rule conjI)
qed

text \<open>Claim C2 as stated fails: the world with \<^verbatim>\<open>auth\<close> and \<^verbatim>\<open>order\<close> started
  serves their two routes; after the failed reconciliation for \<^verbatim>\<open>payments\<close> readers
  get an engine without routes.\<close>

theorem rebuildRouter_resolution_error_counterexample:
  "rebuildRouter 2 registry_Modules cfg_order world0 = Some world_auth_order \<and>
   handler world_auth_order =
     Some [(''/auth'', ''Hello from auth module''), (''/order'', ''Order module using DSN: memory://default'')] \<and>
   resolveDependencies 2 registry_Modules (Modules cfg_unknown) = Some (Inl (UnknownModule ''payments'')) \<and>
   map_option handler (rebuildRouter 2 registry_Modules cfg_unknown world_auth_order) = Some (Some [])"
proof -
  have r: "resolveDependencies 2 registry_Modules (Modules cfg_unknown) = Some (Inl (UnknownModule ''payments''))"
    by (simp add: cfg_unknown_def run_unknown)
  have "map_option handler (rebuildRouter 2 registry_Modules cfg_unknown world_auth_order) = Some (Some [])"
    by (simp add: rebuildRouter_def Update_failed [OF r] handler_def gin_Default_def)
  moreover have "handler world_auth_order =
     Some [(''/auth'', ''Hello from auth module''), (''/order'', ''Order module using DSN: memory://default'')]"
    by (simp add: handler_def world_auth_order_def)
  ultimately show ?thesis
    using r world_auth_order_reached by simp
qed

text \<open>
  Claim C4, as the code has it. \<^verbatim>\<open>Update\<close> returns the new engine and nothing else.
  A unit whose \<^verbatim>\<open>Init\<close> fails is reported by a printed line only: when the resolution
  returns an order, the lines \<^verbatim>\<open>Failed to init module:\<close> that the reconciliation
  prints are, in resolved order, exactly one for each unit that was not active and whose
  \<^verbatim>\<open>Init\<close> returned an error, with that error. Likewise the second loop, where it
  calls \<^verbatim>\<open>Shutdown\<close> and gets an error, prints it.
\<close>

theorem Update_reports_by_printing:
  "(resolveDependencies n reg (Modules cfg) = Some (Inr ordered) \<longrightarrow>
      (\<exists>r' w'. Update n reg cfg w = Some (r', w') \<and>
         filter is_init_failure (events_since w w') =
           map (init_failure_line reg cfg)
             (filter (init_fails reg cfg (active (manager w))) ordered))) \<and>
   (new name = None \<and> old name = Some m \<and> Shutdown (impl m) = Some err \<longrightarrow>
      stop_modules old new [name] tr =
        tr @ [ShutdownCall name (ident m), Println [''Error shutting down module:'', name, err]])"
proof (intro conjI impI)
  assume r: "resolveDependencies n reg (Modules cfg) = Some (Inr ordered)"
  from after_start_events [of reg cfg w ordered] obtain evs
    where o: "out (after_start reg cfg w ordered) = trace w @ evs"
      and f: "filter is_init_failure evs =
         map (init_failure_line reg cfg) (filter (init_fails reg cfg (active (manager w))) ordered)"
    by blast
  show "\<exists>r' w'. Update n reg cfg w = Some (r', w') \<and>
         filter is_init_failure (events_since w w') =
           map (init_failure_line reg cfg)
             (filter (init_fails reg cfg (active (manager w))) ordered)"
    unfolding Update_resolved [OF r] using f
    by (simp add: events_since_def o)
next
  assume "new name = None \<and> old name = Some m \<and> Shutdown (impl m) = Some err"
  then show "stop_modules old new [name] tr =
        tr @ [ShutdownCall name (ident m), Println [''Error shutting down module:'', name, err]]"
    by simp
qed

text \<open>The claim for a module whose \<^verbatim>\<open>Init\<close> fails, requested together with
  \<^verbatim>\<open>user\<close>, and for an instance whose \<^verbatim>\<open>Shutdown\<close> fails.\<close>

theorem Update_reports_by_printing_witness:
  "resolveDependencies 2 registry_with_failing (Modules cfg_db) = Some (Inr [''db'', ''user'']) \<and>
   (\<exists>r' w'. Update 2 registry_with_failing cfg_db world0 = Some (r', w') \<and>
      filter is_init_failure (events_since world0 w') =
        [Println [''Failed to init module:'', ''db'', ''connection refused'']]) \<and>
   stop_modules [''db'' \<mapsto> \<lparr>ident = 7, impl = FailingModule\<lparr>Shutdown := Some ''busy''\<rparr>, init_cfg = Map.empty\<rparr>]
       Map.empty [''db''] [] =
     [ShutdownCall ''db'' 7, Println [''Error shutting down module:'', ''db'', ''busy'']]"
proof -
  have r: "resolveDependencies 2 registry_with_failing (Modules cfg_db) = Some (Inr [''db'', ''user''])"
    by (simp add: cfg_db_def run_db)
  have lines: "map (init_failure_line registry_with_failing cfg_db)
      (filter (init_fails registry_with_failing cfg_db (active (manager world0))) [''db'', ''user'']) =
      [Println [''Failed to init module:'', ''db'', ''connection refused'']]"
    using db_fails
    by (simp add: init_failure_line_def registry_with_failing_def FailingModule_def config_of_def cfg_db_def)
  define stuck where "stuck = \<lparr>ident = 7, impl = FailingModule\<lparr>Shutdown := Some ''busy''\<rparr>, init_cfg = Map.empty\<rparr>"
  have s: "Map.empty ''db'' = None \<and> [''db'' \<mapsto> stuck] ''db'' = Some stuck \<and>
      Shutdown (impl stuck) = Some ''busy''"
    by (simp add: stuck_def)
  from Update_reports_by_printing [where n = 2 and reg = registry_with_failing and cfg = cfg_db
      and ordered = "[''db'', ''user'']" and w = world0 and new = Map.empty and name = "''db''"
      and old = "[''db'' \<mapsto> stuck]" and m = stuck and err = "''busy''" and tr = "[]"]
  show ?thesis
    unfolding lines using r s by (simp add: stuck_def)
qed

text \<open>Claim C4 as stated fails: for a request whose only module fails in \<^verbatim>\<open>Init\<close>,
  \<^verbatim>\<open>Update\<close> returns the same value as for an empty request, an engine without
  routes; the failure is in the printed events only.\<close>

theorem Update_reports_by_printing_counterexample:
  "map_option fst (Update 2 registry_with_failing cfg_only_db world0) = Some gin_Default \<and>
   map_option fst (Update 2 registry_with_failing cfg_none world0) = Some gin_Default \<and>
   map_option (trace \<circ> snd) (Update 2 registry_with_failing cfg_only_db world0) =
     Some [InitCall ''db'' 0, Println [''Failed to init module:'', ''db'', ''connection refused'']]"
  by (simp add: Update_only_db Update_none_failing)

text \<open>
  Claim C6. When the resolution returns an order, every name of the order that is in
  the old active set is in the new active set with the same instance (same identity,
  same state), and the reconciliation calls neither \<^verbatim>\<open>Init\<close> for that name nor any
  \<^verbatim>\<open>Shutdown\<close>; the configuration plays no part. Consequently a second reconciliation
  with the same requested names, whatever its configuration blocks, keeps every
  instance that is active after the first, calls no \<^verbatim>\<open>Shutdown\<close>, and calls
  \<^verbatim>\<open>Init\<close> only for names that were not active after the first (units whose
  \<^verbatim>\<open>Init\<close> had failed); when no \<^verbatim>\<open>Init\<close> failed in the first, it calls no
  \<^verbatim>\<open>Init\<close> at all.
\<close>

theorem Update_keeps_running:
  assumes "resolveDependencies n reg (Modules cfg) = Some (Inr ordered)"
  shows "\<exists>r1 w1. Update n reg cfg w = Some (r1, w1) \<and>
     (\<forall>name\<in>set ordered. \<forall>m. active (manager w) name = Some m \<longrightarrow>
        active (manager w1) name = Some m \<and>
        (\<forall>e\<in>set (events_since w w1). init_called e \<noteq> Some name \<and> \<not> is_ShutdownCall e)) \<and>
     (\<forall>cfg'. Modules cfg' = Modules cfg \<longrightarrow>
        (\<exists>r2 w2. Update n reg cfg' w1 = Some (r2, w2) \<and>
           (\<forall>name m. active (manager w1) name = Some m \<longrightarrow> active (manager w2) name = Some m) \<and>
           (\<forall>e\<in>set (events_since w1 w2).
              \<not> is_ShutdownCall e \<and>
              (\<forall>nm. init_called e = Some nm \<longrightarrow> active (manager w1) nm = None)) \<and>
           ((\<forall>name\<in>set ordered. \<not> init_fails reg cfg (active (manager w)) name) \<longrightarrow>
              (\<forall>e\<in>set (events_since w1 w2). init_called e = None))))"
proof -
  define u where "u = after_start reg cfg w ordered"
  define w1 where "w1 = w\<lparr>manager := (manager w)\<lparr>active := newActive u\<rparr>,
      next_ident := alloc u, trace := out u\<rparr>"
  have up1: "Update n reg cfg w = Some (engine u, w1)"
    unfolding u_def w1_def by (rule Update_resolved [OF assms])
  have act1: "active (manager w1) = newActive u"
    by (simp add: w1_def)
  from after_start_events [of reg cfg w ordered] obtain evs
    where o: "out u = trace w @ evs"
      and s: "\<forall>e\<in>set evs. \<not> is_ShutdownCall e"
      and i: "\<forall>e\<in>set evs. \<forall>nm. init_called e = Some nm \<longrightarrow> nm \<in> set ordered \<and> active (manager w) nm = None"
    unfolding u_def by blast
  have ev1: "events_since w w1 = evs"
    by (simp add: events_since_def w1_def o)
  have first: "\<forall>name\<in>set ordered. \<forall>m. active (manager w) name = Some m \<longrightarrow>
        active (manager w1) name = Some m \<and>
        (\<forall>e\<in>set (events_since w w1). init_called e \<noteq> Some name \<and> \<not> is_ShutdownCall e)"
    unfolding ev1 act1 u_def using s i after_start_kept by fastforce
  have second: "\<exists>r2 w2. Update n reg cfg' w1 = Some (r2, w2) \<and>
           (\<forall>name m. active (manager w1) name = Some m \<longrightarrow> active (manager w2) name = Some m) \<and>
           (\<forall>e\<in>set (events_since w1 w2).
              \<not> is_ShutdownCall e \<and>
              (\<forall>nm. init_called e = Some nm \<longrightarrow> active (manager w1) nm = None)) \<and>
           ((\<forall>name\<in>set ordered. \<not> init_fails reg cfg (active (manager w)) name) \<longrightarrow>
              (\<forall>e\<in>set (events_since w1 w2). init_called e = None))"
    if same: "Modules cfg' = Modules cfg" for cfg'
  proof -
    define u2 where "u2 = after_start reg cfg' w1 ordered"
    define w2 where "w2 = w1\<lparr>manager := (manager w1)\<lparr>active := newActive u2\<rparr>,
        next_ident := alloc u2, trace := out u2\<rparr>"
    have r2: "resolveDependencies n reg (Modules cfg') = Some (Inr ordered)"
      using assms same by simp
    have up2: "Update n reg cfg' w1 = Some (engine u2, w2)"
      unfolding u2_def w2_def by (rule Update_resolved [OF r2])
    from after_start_events [of reg cfg' w1 ordered] obtain evs2
      where o2: "out u2 = trace w1 @ evs2"
        and s2: "\<forall>e\<in>set evs2. \<not> is_ShutdownCall e"
        and i2: "\<forall>e\<in>set evs2. \<forall>nm. init_called e = Some nm \<longrightarrow> nm \<in> set ordered \<and> active (manager w1) nm = None"
      unfolding u2_def by blast
    have ev2: "events_since w1 w2 = evs2"
      by (simp add: events_since_def w2_def o2)
    have keep: "active (manager w2) name = Some m" if "active (manager w1) name = Some m" for name m
    proof -
      from that have "name \<in> set ordered"
        unfolding act1 u_def by (rule after_start_active)
      from after_start_kept [OF this that] show ?thesis
        by (simp add: w2_def u2_def)
    qed
    have none: "init_called e = None"
      if all: "\<forall>name\<in>set ordered. \<not> init_fails reg cfg (active (manager w)) name"
        and e: "e \<in> set evs2" for e
    proof (cases "init_called e")
      case None
      then show ?thesis .
    next
      case (Some nm)
      with i2 e have nm: "nm \<in> set ordered" and "active (manager w1) nm = None"
        by blast+
      moreover have "active (manager w1) nm \<noteq> None"
        unfolding act1 u_def by (rule after_start_all_active [OF assms all nm])
      ultimately show ?thesis by blast
    qed
    have "Update n reg cfg' w1 = Some (engine u2, w2) \<and>
           (\<forall>name m. active (manager w1) name = Some m \<longrightarrow> active (manager w2) name = Some m) \<and>
           (\<forall>e\<in>set (events_since w1 w2).
              \<not> is_ShutdownCall e \<and>
              (\<forall>nm. init_called e = Some nm \<longrightarrow> active (manager w1) nm = None)) \<and>
           ((\<forall>name\<in>set ordered. \<not> init_fails reg cfg (active (manager w)) name) \<longrightarrow>
              (\<forall>e\<in>set (events_since w1 w2). init_called e = None))"
      unfolding ev2 using up2 keep s2 i2 none by blast
    then show ?thesis
      by (intro exI)
  qed
  from up1 first second show ?thesis
    by blast
qed

text \<open>The claim for \<^verbatim>\<open>user\<close>, started with the greeting \<^verbatim>\<open>hi\<close> and reconciled again
  with the greeting \<^verbatim>\<open>bye\<close>: the instance and its route stay as they were.\<close>

theorem Update_keeps_running_witness:
  "resolveDependencies 2 registry_Modules (Modules cfg_hi) = Some (Inr [''user'']) \<and>
   Modules cfg_bye = Modules cfg_hi \<and>
   Configs cfg_bye ''user'' \<noteq> Configs cfg_hi ''user'' \<and>
   (\<exists>r1 w1 r2 w2.
      Update 2 registry_Modules cfg_hi world0 = Some (r1, w1) \<and>
      Update 2 registry_Modules cfg_bye w1 = Some (r2, w2) \<and>
      active (manager w1) ''user'' =
        Some \<lparr>ident = 0, impl = UserModule, init_cfg = [''greeting'' \<mapsto> ''hi'']\<rparr> \<and>
      active (manager w2) ''user'' = active (manager w1) ''user'' \<and>
      events_since w1 w2 = [RegisterRoutesCall ''user'' 0] \<and>
      r2 = [(''/user'', ''hi'')])"
proof -
  have r: "resolveDependencies 2 registry_Modules (Modules cfg_hi) = Some (Inr [''user''])"
    by (simp add: cfg_hi_def run_user)
  have same: "Modules cfg_bye = Modules cfg_hi"
    by (simp add: cfg_hi_def cfg_bye_def)
  have differ: "Configs cfg_bye ''user'' \<noteq> Configs cfg_hi ''user''"
  proof
    assume "Configs cfg_bye ''user'' = Configs cfg_hi ''user''"
    then have "[''greeting'' \<mapsto> ''bye''] ''greeting'' = [''greeting'' \<mapsto> ''hi''] ''greeting''"
      by (simp add: cfg_hi_def cfg_bye_def)
    then show False by simp
  qed
  from Update_keeps_running [OF r, of world0] obtain r1 w1
    where up1: "Update 2 registry_Modules cfg_hi world0 = Some (r1, w1)"
      and again: "\<forall>cfg'. Modules cfg' = Modules cfg_hi \<longrightarrow>
        (\<exists>r2 w2. Update 2 registry_Modules cfg' w1 = Some (r2, w2) \<and>
           (\<forall>name m. active (manager w1) name = Some m \<longrightarrow> active (manager w2) name = Some m) \<and>
           (\<forall>e\<in>set (events_since w1 w2).
              \<not> is_ShutdownCall e \<and>
              (\<forall>nm. init_called e = Some nm \<longrightarrow> active (manager w1) nm = None)) \<and>
           ((\<forall>name\<in>set [''user'']. \<not> init_fails registry_Modules cfg_hi (active (manager world0)) name) \<longrightarrow>
              (\<forall>e\<in>set (events_since w1 w2). init_called e = None)))"
    by blast
  from up1 have w1: "w1 = world_hi"
    by (simp add: Update_hi)
  from again [rule_format, OF same] obtain r2 w2
    where up2: "Update 2 registry_Modules cfg_bye w1 = Some (r2, w2)"
      and keep: "\<forall>name m. active (manager w1) name = Some m \<longrightarrow> active (manager w2) name = Some m"
    by blast
  have a1: "active (manager w1) ''user'' =
      Some \<lparr>ident = 0, impl = UserModule, init_cfg = [''greeting'' \<mapsto> ''hi'']\<rparr>"
    by (simp add: w1 world_hi_def)
  have a2: "active (manager w2) ''user'' = active (manager w1) ''user''"
    using keep [rule_format, OF a1] a1 by simp
  from up2 have r2: "r2 = [(''/user'', ''hi'')]"
    and w2: "w2 = world_hi\<lparr>trace := trace world_hi @ [RegisterRoutesCall ''user'' 0]\<rparr>"
    by (simp_all add: w1 Update_bye)
  have ev: "events_since w1 w2 = [RegisterRoutesCall ''user'' 0]"
    by (simp add: w1 w2 events_since_def)
  from up1 up2 a1 a2 ev r2 have "\<exists>r1 w1 r2 w2.
      Update 2 registry_Modules cfg_hi world0 = Some (r1, w1) \<and>
      Update 2 registry_Modules cfg_bye w1 = Some (r2, w2) \<and>
      active (manager w1) ''user'' =
        Some \<lparr>ident = 0, impl = UserModule, init_cfg = [''greeting'' \<mapsto> ''hi'']\<rparr> \<and>
      active (manager w2) ''user'' = active (manager w1) ''user'' \<and>
      events_since w1 w2 = [RegisterRoutesCall ''user'' 0] \<and>
      r2 = [(''/user'', ''hi'')]"
    by (intro exI conjI)
  with r same differ show ?thesis
    by (intro conjI)
qed

text \<open>
  Claim C7. When the resolution returns an order, \<^verbatim>\<open>Update\<close> returns. A unit of the
  order that was not active and whose \<^verbatim>\<open>Init\<close> returns an error is not in the new
  active set and contributes no route. Every other unit of the order, wherever it
  stands relative to a failed one, is in the new active set: with the instance it had
  when it was active, else with a new instance (an identity not used before) of the
  factory registered under its name, initialised with the configuration of that name;
  and the returned engine has all its routes. The returned engine holds exactly the
  routes of these units, in resolved order, and no name outside the order is active.
\<close>

theorem Update_init_failure_isolated:
  assumes "resolveDependencies n reg (Modules cfg) = Some (Inr ordered)"
  shows "\<exists>r' w'. Update n reg cfg w = Some (r', w') \<and>
     r' = concat (map (routes_for reg cfg (active (manager w))) ordered) \<and>
     (\<forall>name. name \<notin> set ordered \<longrightarrow> active (manager w') name = None) \<and>
     (\<forall>name\<in>set ordered. init_fails reg cfg (active (manager w)) name \<longrightarrow>
        active (manager w') name = None \<and> routes_for reg cfg (active (manager w)) name = []) \<and>
     (\<forall>name\<in>set ordered. \<not> init_fails reg cfg (active (manager w)) name \<longrightarrow>
        (\<exists>m. active (manager w') name = Some m \<and>
           (case active (manager w) name of
              Some oldm \<Rightarrow> m = oldm
            | None \<Rightarrow> map_of reg name = Some (impl m) \<and> init_cfg m = config_of cfg name \<and>
                       next_ident w \<le> ident m \<and> ident m < next_ident w') \<and>
           routes_for reg cfg (active (manager w)) name = RegisterRoutes (impl m) (init_cfg m) \<and>
           set (RegisterRoutes (impl m) (init_cfg m)) \<subseteq> set r'))"
proof -
  define u where "u = after_start reg cfg w ordered"
  define old where "old = active (manager w)"
  define w' where "w' = w\<lparr>manager := (manager w)\<lparr>active := newActive u\<rparr>,
      next_ident := alloc u, trace := out u\<rparr>"
  have up: "Update n reg cfg w = Some (engine u, w')"
    unfolding u_def w'_def by (rule Update_resolved [OF assms])
  have eng: "engine u = concat (map (routes_for reg cfg old) ordered)"
    unfolding u_def old_def by (rule after_start_engine)
  have act: "active (manager w') = newActive u" and nxt: "next_ident w' = alloc u"
    by (simp_all add: w'_def)
  have outside: "\<forall>name. name \<notin> set ordered \<longrightarrow> active (manager w') name = None"
    unfolding act u_def using after_start_outside by blast
  have failed: "\<forall>name\<in>set ordered. init_fails reg cfg old name \<longrightarrow>
        active (manager w') name = None \<and> routes_for reg cfg old name = []"
  proof (intro ballI impI)
    fix name assume f: "init_fails reg cfg old name"
    have "newActive u name = None"
      using start_modules_failed [OF f [unfolded old_def]] by (simp add: u_def after_start_def)
    with routes_for_failed [OF f]
    show "active (manager w') name = None \<and> routes_for reg cfg old name = []"
      by (simp add: act)
  qed
  have ok: "\<forall>name\<in>set ordered. \<not> init_fails reg cfg old name \<longrightarrow>
        (\<exists>m. active (manager w') name = Some m \<and>
           (case old name of
              Some oldm \<Rightarrow> m = oldm
            | None \<Rightarrow> map_of reg name = Some (impl m) \<and> init_cfg m = config_of cfg name \<and>
                       next_ident w \<le> ident m \<and> ident m < next_ident w') \<and>
           routes_for reg cfg old name = RegisterRoutes (impl m) (init_cfg m) \<and>
           set (RegisterRoutes (impl m) (init_cfg m)) \<subseteq> set (engine u))"
  proof (intro ballI impI)
    fix name assume mem: "name \<in> set ordered" and nf: "\<not> init_fails reg cfg old name"
    have sub: "set (routes_for reg cfg old name) \<subseteq> set (engine u)"
      using mem unfolding eng by auto
    show "\<exists>m. active (manager w') name = Some m \<and>
           (case old name of
              Some oldm \<Rightarrow> m = oldm
            | None \<Rightarrow> map_of reg name = Some (impl m) \<and> init_cfg m = config_of cfg name \<and>
                       next_ident w \<le> ident m \<and> ident m < next_ident w') \<and>
           routes_for reg cfg old name = RegisterRoutes (impl m) (init_cfg m) \<and>
           set (RegisterRoutes (impl m) (init_cfg m)) \<subseteq> set (engine u)"
    proof (cases "old name")
      case (Some oldm)
      have "newActive u name = Some oldm"
        unfolding u_def by (rule after_start_kept [OF mem Some [unfolded old_def]])
      moreover have "routes_for reg cfg old name = RegisterRoutes (impl oldm) (init_cfg oldm)"
        by (simp add: routes_for_def Some)
      ultimately show ?thesis
        using sub Some by (simp add: act)
    next
      case None
      from resolved_registered [OF assms mem] obtain f where f: "map_of reg name = Some f" ..
      from nf None f have init: "Init f (config_of cfg name) = None"
        by (simp add: init_fails_def)
      from after_start_new [OF mem None [unfolded old_def] f init] obtain i
        where i: "next_ident w \<le> i" "i < alloc u"
          and m: "newActive u name = Some \<lparr>ident = i, impl = f, init_cfg = config_of cfg name\<rparr>"
        unfolding u_def by blast
      have "routes_for reg cfg old name = RegisterRoutes f (config_of cfg name)"
        by (simp add: routes_for_def None f init)
      with sub i m f None show ?thesis
        by (simp add: act nxt)
    qed
  qed
  from up eng outside failed ok
  have "Update n reg cfg w = Some (engine u, w') \<and>
     engine u = concat (map (routes_for reg cfg old) ordered) \<and>
     (\<forall>name. name \<notin> set ordered \<longrightarrow> active (manager w') name = None) \<and>
     (\<forall>name\<in>set ordered. init_fails reg cfg old name \<longrightarrow>
        active (manager w') name = None \<and> routes_for reg cfg old name = []) \<and>
     (\<forall>name\<in>set ordered. \<not> init_fails reg cfg old name \<longrightarrow>
        (\<exists>m. active (manager w') name = Some m \<and>
           (case old name of
              Some oldm \<Rightarrow> m = oldm
            | None \<Rightarrow> map_of reg name = Some (impl m) \<and> init_cfg m = config_of cfg name \<and>
                       next_ident w \<le> ident m \<and> ident m < next_ident w') \<and>
           routes_for reg cfg old name = RegisterRoutes (impl m) (init_cfg m) \<and>
           set (RegisterRoutes (impl m) (init_cfg m)) \<subseteq> set (engine u)))"
    by (intro conjI)
  then show ?thesis
    unfolding old_def by (intro exI)
qed

text \<open>The claim for a module whose \<^verbatim>\<open>Init\<close> fails, requested in front of \<^verbatim>\<open>user\<close>.\<close>

theorem Update_init_failure_isolated_witness:
  "resolveDependencies 2 registry_with_failing (Modules cfg_db) = Some (Inr [''db'', ''user'']) \<and>
   init_fails registry_with_failing cfg_db (active (manager world0)) ''db'' \<and>
   \<not> init_fails registry_with_failing cfg_db (active (manager world0)) ''user'' \<and>
   (\<exists>r' w'. Update 2 registry_with_failing cfg_db world0 = Some (r', w') \<and>
      r' = [(''/user'', ''Hello from user (default)'')] \<and>
      active (manager w') ''db'' = None \<and>
      (\<exists>m. active (manager w') ''user'' = Some m \<and>
         map_of registry_with_failing ''user'' = Some (impl m) \<and>
         init_cfg m = config_of cfg_db ''user'' \<and>
         set (RegisterRoutes (impl m) (init_cfg m)) \<subseteq> set r'))"
proof -
  define reg where "reg = registry_with_failing"
  define old where "old = active (manager world0)"
  have r: "resolveDependencies 2 reg (Modules cfg_db) = Some (Inr [''db'', ''user''])"
    by (simp add: cfg_db_def run_db reg_def)
  have fails: "init_fails reg cfg_db old ''db''" and fine: "\<not> init_fails reg cfg_db old ''user''"
    using db_fails by (simp_all add: reg_def old_def)
  have old_user: "old ''user'' = None"
    by (simp add: old_def world0_def)
  have routes: "concat (map (routes_for reg cfg_db old) [''db'', ''user'']) =
      [(''/user'', ''Hello from user (default)'')]"
    by (simp add: routes_for_def reg_def old_def world0_def registry_with_failing_def
        registry_Modules_def FailingModule_def UserModule_def config_of_def cfg_db_def)
  from Update_init_failure_isolated [OF r, of world0] obtain r' w'
    where up: "Update 2 reg cfg_db world0 = Some (r', w')"
      and eng: "r' = concat (map (routes_for reg cfg_db old) [''db'', ''user''])"
      and failed: "\<forall>name\<in>set [''db'', ''user'']. init_fails reg cfg_db old name \<longrightarrow>
          active (manager w') name = None \<and> routes_for reg cfg_db old name = []"
      and ok: "\<forall>name\<in>set [''db'', ''user'']. \<not> init_fails reg cfg_db old name \<longrightarrow>
          (\<exists>m. active (manager w') name = Some m \<and>
             (case old name of
                Some oldm \<Rightarrow> m = oldm
              | None \<Rightarrow> map_of reg name = Some (impl m) \<and> init_cfg m = config_of cfg_db name \<and>
                         next_ident world0 \<le> ident m \<and> ident m < next_ident w') \<and>
             routes_for reg cfg_db old name = RegisterRoutes (impl m) (init_cfg m) \<and>
             set (RegisterRoutes (impl m) (init_cfg m)) \<subseteq> set r')"
    unfolding old_def by blast
  have r': "r' = [(''/user'', ''Hello from user (default)'')]"
    using eng routes by simp
  have b: "active (manager w') ''db'' = None"
    using failed fails by simp
  from ok fine have "\<exists>m. active (manager w') ''user'' = Some m \<and>
             (case old ''user'' of
                Some oldm \<Rightarrow> m = oldm
              | None \<Rightarrow> map_of reg ''user'' = Some (impl m) \<and> init_cfg m = config_of cfg_db ''user'' \<and>
                         next_ident world0 \<le> ident m \<and> ident m < next_ident w') \<and>
             routes_for reg cfg_db old ''user'' = RegisterRoutes (impl m) (init_cfg m) \<and>
             set (RegisterRoutes (impl m) (init_cfg m)) \<subseteq> set r'"
    by simp
  then obtain m where m: "active (manager w') ''user'' = Some m"
    and new: "map_of reg ''user'' = Some (impl m)" "init_cfg m = config_of cfg_db ''user''"
    and sub: "set (RegisterRoutes (impl m) (init_cfg m)) \<subseteq> set r'"
    unfolding old_user by auto
  from m new sub have g: "\<exists>m. active (manager w') ''user'' = Some m \<and>
         map_of reg ''user'' = Some (impl m) \<and>
         init_cfg m = config_of cfg_db ''user'' \<and>
         set (RegisterRoutes (impl m) (init_cfg m)) \<subseteq> set r'"
    by (intro exI [where x = m] conjI)
  from up r' b g have "Update 2 reg cfg_db world0 = Some (r', w') \<and>
      r' = [(''/user'', ''Hello from user (default)'')] \<and>
      active (manager w') ''db'' = None \<and>
      (\<exists>m. active (manager w') ''user'' = Some m \<and>
         map_of reg ''user'' = Some (impl m) \<and>
         init_cfg m = config_of cfg_db ''user'' \<and>
         set (RegisterRoutes (impl m) (init_cfg m)) \<subseteq> set r')"
    by (intro conjI)
  then have "\<exists>r' w'. Update 2 reg cfg_db world0 = Some (r', w') \<and>
      r' = [(''/user'', ''Hello from user (default)'')] \<and>
      active (manager w') ''db'' = None \<and>
      (\<exists>m. active (manager w') ''user'' = Some m \<and>
         map_of reg ''user'' = Some (impl m) \<and>
         init_cfg m = config_of cfg_db ''user'' \<and>
         set (RegisterRoutes (impl m) (init_cfg m)) \<subseteq> set r')"
    by (intro exI)
  with r fails fine show ?thesis
    unfolding reg_def old_def by (intro conjI)
qed

section \<open>Properties of the environment expansion\<close>

lemma not_key_char [simp]: "\<not> is_key_char (CHR ''}'')" "\<not> is_key_char (CHR '':'')"
  by (simp_all add: is_key_char_def)

lemma match_envPattern_plain:
  assumes "is_key k"
  shows "match_envPattern (''${'' @ k @ ''}'' @ rest) = Some (''${'' @ k @ ''}'', k, [], rest)"
proof -
  have all: "\<forall>c\<in>set k. is_key_char c" and ne: "k \<noteq> []"
    using assms by (auto simp: is_key_def list_all_iff)
  have tw: "takeWhile is_key_char (k @ CHR ''}'' # rest) = k"
    using all by (simp add: takeWhile_tail)
  have dw: "dropWhile is_key_char (k @ CHR ''}'' # rest) = CHR ''}'' # rest"
    using all by (simp add: dropWhile_append3)
  show ?thesis
    using ne by (simp add: match_envPattern_def tw dw)
qed

lemma match_envPattern_default:
  assumes "is_key k" and "is_default d"
  shows "match_envPattern (''${'' @ k @ '':'' @ d @ ''}'' @ rest) =
         Some (''${'' @ k @ '':'' @ d @ ''}'', k, d, rest)"
proof -
  have all: "\<forall>c\<in>set k. is_key_char c" and ne: "k \<noteq> []"
    using assms by (auto simp: is_key_def list_all_iff)
  have dall: "\<forall>c\<in>set d. c \<noteq> CHR ''}''" and dne: "d \<noteq> []"
    using assms by (auto simp: is_default_def)
  have tw: "takeWhile is_key_char (k @ CHR '':'' # d @ CHR ''}'' # rest) = k"
    using all by (simp add: takeWhile_tail)
  have dw: "dropWhile is_key_char (k @ CHR '':'' # d @ CHR ''}'' # rest) = CHR '':'' # d @ CHR ''}'' # rest"
    using all by (simp add: dropWhile_append3)
  have tw2: "takeWhile (\<lambda>c. c \<noteq> CHR ''}'') (d @ CHR ''}'' # rest) = d"
    using dall by (simp add: takeWhile_tail)
  have dw2: "dropWhile (\<lambda>c. c \<noteq> CHR ''}'') (d @ CHR ''}'' # rest) = CHR ''}'' # rest"
    using dall by (simp add: dropWhile_append3)
  show ?thesis
    using ne dne by (simp add: match_envPattern_def tw dw tw2 dw2)
qed

lemma FindStringSubmatch_match:
  assumes "match_envPattern s = Some (m, k, d, rest)"
  shows "FindStringSubmatch m = Some [m, k, d]"
proof -
  from match_envPattern_sound [OF assms]
  have key: "is_key k"
    and m: "d = [] \<and> m = ''${'' @ k @ ''}'' \<or> is_default d \<and> m = ''${'' @ k @ '':'' @ d @ ''}''"
    by blast+
  from m show ?thesis
  proof
    assume a: "d = [] \<and> m = ''${'' @ k @ ''}''"
    with match_envPattern_plain [OF key, of "[]"] show ?thesis by simp
  next
    assume a: "is_default d \<and> m = ''${'' @ k @ '':'' @ d @ ''}''"
    with match_envPattern_default [OF key, of d "[]"] show ?thesis by simp
  qed
qed

lemma ExpandEnv_match:
  assumes "match_envPattern s = Some (m, k, d, rest)"
  shows "ExpandEnv env s =
         (if Getenv env k \<noteq> [] then Getenv env k else if d \<noteq> [] then d else m) @ ExpandEnv env rest"
proof -
  from match_envPattern_sound [OF assms] obtain c cs where s: "s = c # cs"
    by (cases s) auto
  show ?thesis
    using assms FindStringSubmatch_match [OF assms]
    unfolding ExpandEnv_def s by (simp add: Let_def)
qed

lemma ExpandEnv_no_match:
  "match_envPattern (c # cs) = None \<Longrightarrow> ExpandEnv env (c # cs) = c # ExpandEnv env cs"
  unfolding ExpandEnv_def by simp

lemma ExpandEnv_Nil: "ExpandEnv env [] = []"
  unfolding ExpandEnv_def by simp

lemma Getenv_env_value:
  "(if Getenv env k \<noteq> [] then Getenv env k else fallback) = env_value env k fallback"
  by (auto simp: Getenv_def env_value_def split: option.splits)

lemma match_envPattern_complete: "match_envPattern s = None \<Longrightarrow> \<not> pattern_at s"
  unfolding pattern_at_def
  using match_envPattern_plain match_envPattern_default by fastforce

lemma ExpandEnv_outside:
  "(\<forall>i<length pre. \<not> pattern_at (drop i (pre @ rest))) \<Longrightarrow>
     ExpandEnv env (pre @ rest) = pre @ ExpandEnv env rest"
proof (induction pre)
  case Nil
  then show ?case by simp
next
  case (Cons c pre)
  have "\<not> pattern_at (c # pre @ rest)"
    using Cons.prems by (auto dest: spec [of _ 0])
  then have none: "match_envPattern (c # pre @ rest) = None"
  proof (cases "match_envPattern (c # pre @ rest)")
    case None
    then show ?thesis .
  next
    case (Some q)
    obtain m k d r where q: "q = (m, k, d, r)" by (cases q) auto
    from match_envPattern_sound [OF Some [unfolded q]] have "pattern_at (c # pre @ rest)"
      unfolding pattern_at_def by (metis append_assoc)
    with \<open>\<not> pattern_at (c # pre @ rest)\<close> show ?thesis by blast
  qed
  have "\<forall>i<length pre. \<not> pattern_at (drop i (pre @ rest))"
    using Cons.prems by (auto dest: spec [of _ "Suc i" for i])
  from Cons.IH [OF this] ExpandEnv_no_match [OF none] show ?case
    by simp
qed

lemma Getenv_empty_unset: "env k = Some [] \<Longrightarrow> Getenv (env(k := None)) = Getenv env"
  by (auto simp: Getenv_def fun_eq_iff)

lemma pattern_at_starts: "pattern_at s \<Longrightarrow> \<exists>t. s = CHR ''$'' # CHR ''{'' # t"
  unfolding pattern_at_def by auto

text \<open>The equations of the claim below leave no freedom: a function that satisfies them
  for an environment is \<^verbatim>\<open>ExpandEnv\<close> with that environment.\<close>

lemma ExpandEnv_determined:
  assumes nil: "F [] = []"
    and plain: "\<And>k rest. is_key k \<Longrightarrow>
        F (''${'' @ k @ ''}'' @ rest) = env_value env k (''${'' @ k @ ''}'') @ F rest"
    and dflt: "\<And>k d rest. is_key k \<Longrightarrow> is_default d \<Longrightarrow>
        F (''${'' @ k @ '':'' @ d @ ''}'' @ rest) = env_value env k d @ F rest"
    and outside: "\<And>pre rest. (\<forall>i<length pre. \<not> pattern_at (drop i (pre @ rest))) \<Longrightarrow>
        F (pre @ rest) = pre @ F rest"
  shows "F s = ExpandEnv env s"
proof (induction s rule: length_induct)
  case (1 s)
  show ?case
  proof (cases s)
    case Nil
    then show ?thesis by (simp add: nil ExpandEnv_Nil)
  next
    case (Cons c cs)
    show ?thesis
    proof (cases "match_envPattern s")
      case None
      then have np: "\<not> pattern_at s" by (rule match_envPattern_complete)
      have "\<forall>i<length [c]. \<not> pattern_at (drop i ([c] @ cs))"
        using np Cons by simp
      from outside [OF this] have "F s = c # F cs"
        by (simp add: Cons)
      moreover have "F cs = ExpandEnv env cs"
        using "1.IH" Cons by simp
      moreover have "ExpandEnv env s = c # ExpandEnv env cs"
        using ExpandEnv_no_match None Cons by simp
      ultimately show ?thesis by simp
    next
      case (Some q)
      obtain m k d rest where q: "q = (m, k, d, rest)" by (cases q) auto
      note mt = Some [unfolded q]
      from match_envPattern_sound [OF mt] have s: "s = m @ rest" and key: "is_key k"
        and shape: "d = [] \<and> m = ''${'' @ k @ ''}'' \<or>
                    is_default d \<and> m = ''${'' @ k @ '':'' @ d @ ''}''"
        by blast+
      have shorter: "length rest < length s"
        using match_envPattern_shorter [OF mt] .
      then have rest: "F rest = ExpandEnv env rest"
        using "1.IH" by blast
      have E: "ExpandEnv env s =
          (if Getenv env k \<noteq> [] then Getenv env k else if d \<noteq> [] then d else m) @ ExpandEnv env rest"
        by (rule ExpandEnv_match [OF mt])
      from shape show ?thesis
      proof
        assume a: "d = [] \<and> m = ''${'' @ k @ ''}''"
        then have "F s = env_value env k m @ F rest"
          using plain [OF key, of rest] by (simp add: s)
        with a E rest show ?thesis
          by (simp add: Getenv_env_value [symmetric])
      next
        assume a: "is_default d \<and> m = ''${'' @ k @ '':'' @ d @ ''}''"
        then have "F s = env_value env k d @ F rest"
          using dflt [OF key, of d rest] by (simp add: s)
        moreover from a have "d \<noteq> []" by (simp add: is_default_def)
        ultimately show ?thesis
          using E rest by (simp add: Getenv_env_value [symmetric])
      qed
    qed
  qed
qed

text \<open>
  Claim C10. For every string and environment, \<^verbatim>\<open>ExpandEnv\<close> maps the empty string
  to itself; it replaces a reference \<^verbatim>\<open>${VAR}\<close> by the value of \<^verbatim>\<open>VAR\<close> when that is
  set and not empty and leaves the reference as it is otherwise; it replaces
  \<^verbatim>\<open>${VAR:default}\<close> by the value when that is set and not empty and by the default
  otherwise; after a reference it goes on with the rest of the string. A stretch of
  text in which no reference starts is copied unchanged. A variable set to the empty
  string gives the same result as the variable not being set. (Every string is empty,
  or starts with a reference, or starts with a character at which no reference starts,
  so the first four equations fix the result on every input.)
\<close>

theorem ExpandEnv_replaces:
  "ExpandEnv env [] = [] \<and>
   (is_key k \<longrightarrow>
      ExpandEnv env (''${'' @ k @ ''}'' @ rest) =
        env_value env k (''${'' @ k @ ''}'') @ ExpandEnv env rest) \<and>
   (is_key k \<and> is_default d \<longrightarrow>
      ExpandEnv env (''${'' @ k @ '':'' @ d @ ''}'' @ rest) =
        env_value env k d @ ExpandEnv env rest) \<and>
   ((\<forall>i<length pre. \<not> pattern_at (drop i (pre @ rest))) \<longrightarrow>
      ExpandEnv env (pre @ rest) = pre @ ExpandEnv env rest) \<and>
   (env k' = Some [] \<longrightarrow> ExpandEnv env s = ExpandEnv (env(k' := None)) s)"
proof (intro conjI impI)
  show "ExpandEnv env [] = []"
    by (rule ExpandEnv_Nil)
next
  assume key: "is_key k"
  from ExpandEnv_match [OF match_envPattern_plain [OF key, of rest], of env]
  show "ExpandEnv env (''${'' @ k @ ''}'' @ rest) = env_value env k (''${'' @ k @ ''}'') @ ExpandEnv env rest"
    by (simp add: Getenv_env_value [symmetric])
next
  assume a: "is_key k \<and> is_default d"
  then have dne: "d \<noteq> []" by (simp add: is_default_def)
  from a ExpandEnv_match [OF match_envPattern_default [of k d rest], of env] dne
  show "ExpandEnv env (''${'' @ k @ '':'' @ d @ ''}'' @ rest) = env_value env k d @ ExpandEnv env rest"
    by (simp add: Getenv_env_value [symmetric])
next
  assume "\<forall>i<length pre. \<not> pattern_at (drop i (pre @ rest))"
  then show "ExpandEnv env (pre @ rest) = pre @ ExpandEnv env rest"
    by (rule ExpandEnv_outside)
next
  assume "env k' = Some []"
  then have "Getenv (env(k' := None)) = Getenv env"
    by (rule Getenv_empty_unset)
  then show "ExpandEnv env s = ExpandEnv (env(k' := None)) s"
    unfolding ExpandEnv_def by (simp only:)
qed

text \<open>The claim at a concrete environment, with \<^verbatim>\<open>HOME=/root\<close> and \<^verbatim>\<open>EMPTY\<close> set
  to the empty string.\<close>

theorem ExpandEnv_replaces_witness:
  "is_key ''HOME'' \<and> is_default ''/tmp'' \<and> env0 ''EMPTY'' = Some [] \<and>
   ExpandEnv env0 ''abc'' = ''abc'' \<and>
   ExpandEnv env0 ''${HOME}/bin'' = ''/root/bin'' \<and>
   ExpandEnv env0 ''${HOME:/tmp}/bin'' = ''/root/bin'' \<and>
   ExpandEnv env0 ''a$b {c} ${HOME}'' = ''a$b {c} /root'' \<and>
   ExpandEnv env0 ''${EMPTY:x} ${EMPTY}'' = ExpandEnv (env0(''EMPTY'' := None)) ''${EMPTY:x} ${EMPTY}''"
proof -
  have k: "is_key ''HOME''"
    by (simp add: is_key_def is_key_char_def)
  have d: "is_default ''/tmp''"
    by (simp add: is_default_def)
  have e: "env0 ''EMPTY'' = Some []"
    by (simp add: env0_def)
  have o1: "\<forall>i<length ''a$b {c} ''. \<not> pattern_at (drop i (''a$b {c} '' @ ''${HOME}''))"
    by (auto simp: less_Suc_eq numeral_nat dest!: pattern_at_starts)
  have o2: "\<forall>i<length ''/bin''. \<not> pattern_at (drop i (''/bin'' @ []))"
    by (auto simp: less_Suc_eq numeral_nat dest!: pattern_at_starts)
  have o3: "\<forall>i<length ''abc''. \<not> pattern_at (drop i (''abc'' @ []))"
    by (auto simp: less_Suc_eq numeral_nat dest!: pattern_at_starts)
  have v: "env_value env0 ''HOME'' fb = ''/root''" for fb
    by (simp add: env_value_def env0_def)
  note t1 = ExpandEnv_replaces [where k = "''HOME''" and env = env0 and rest = "''/bin''"
      and d = "''/tmp''" and pre = "''/bin''" and k' = "''EMPTY''" and s = "''${EMPTY:x} ${EMPTY}''"]
  note t2 = ExpandEnv_replaces [where k = "''HOME''" and env = env0 and rest = "[]"
      and d = "''/tmp''" and pre = "''/bin''" and k' = "''EMPTY''" and s = "[]"]
  note t3 = ExpandEnv_replaces [where k = "''HOME''" and env = env0 and rest = "[]"
      and d = "''/tmp''" and pre = "''abc''" and k' = "''EMPTY''" and s = "[]"]
  note t4 = ExpandEnv_replaces [where k = "''HOME''" and env = env0 and rest = "''${HOME}''"
      and d = "''/tmp''" and pre = "''a$b {c} ''" and k' = "''EMPTY''" and s = "[]"]
  have nil: "ExpandEnv env0 [] = []"
    using t2 by blast
  have bin: "ExpandEnv env0 ''/bin'' = ''/bin''"
    using t2 o2 nil by simp
  have abc: "ExpandEnv env0 ''abc'' = ''abc''"
    using t3 o3 nil by simp
  have home: "ExpandEnv env0 ''${HOME}'' = ''/root''"
    using t2 k nil by (simp add: v)
  have p1: "ExpandEnv env0 ''${HOME}/bin'' = ''/root/bin''"
    using t1 k bin by (simp add: v)
  have p2: "ExpandEnv env0 ''${HOME:/tmp}/bin'' = ''/root/bin''"
    using t1 k d bin by (simp add: v)
  have p3: "ExpandEnv env0 ''a$b {c} ${HOME}'' = ''a$b {c} /root''"
    using t4 o1 home by simp
  have p4: "ExpandEnv env0 ''${EMPTY:x} ${EMPTY}'' =
      ExpandEnv (env0(''EMPTY'' := None)) ''${EMPTY:x} ${EMPTY}''"
    using t1 e by blast
  from k d e abc p1 p2 p3 p4 show ?thesis
    by (intro conjI)
qed

end
